theory Spec2Isabelle
  imports Main
begin

section \<open>Pagination: the page window\<close>

text \<open>
  The page numbers are JavaScript Numbers, that is IEEE 754 doubles. A Number that holds
  an integer is modelled by that integer (\<open>int\<close>), and the arguments of the functions
  below stand for such Numbers. Every integer up to \<open>2\<^sup>5\<^sup>3\<close> in absolute value is a
  Number; beyond, a Number has 53 significant bits. The sum or difference of two such
  Numbers is the exact result rounded to the nearest Number, to the one with the even
  significand when two are equally near. Comparisons are exact. Infinities are not
  modelled: a result beyond the largest double stays a large integer here. In \<open>pages\<close>
  only the difference \<open>totalPages - endPage\<close> can be that large, and it is only compared
  with 1.
\<close>

function bit_length :: "int \<Rightarrow> nat" where
  "bit_length x = (if x \<le> 0 then 0 else Suc (bit_length (x div 2)))"
  by pat_completeness auto
termination
  by (relation "measure nat") auto

declare bit_length.simps [simp del]

definition js_round :: "int \<Rightarrow> int" where
  "js_round x =
    (if bit_length \<bar>x\<bar> \<le> 53 then x
     else (let u = 2 ^ (bit_length \<bar>x\<bar> - 53); q = x div u; r = x mod u
           in if 2 * r < u then q * u
              else if u < 2 * r then (q + 1) * u
              else if even q then q * u
              else (q + 1) * u))"

definition js_add :: "int \<Rightarrow> int \<Rightarrow> int" where
  "js_add a b = js_round (a + b)"

definition js_sub :: "int \<Rightarrow> int \<Rightarrow> int" where
  "js_sub a b = js_round (a - b)"

text \<open>
  \<open>Number.MAX_SAFE_INTEGER\<close>, that is \<open>2\<^sup>5\<^sup>3 - 1\<close>: up to it in absolute value, an
  integer and its two neighbours are Numbers.
\<close>

definition MAX_SAFE_INTEGER :: int where
  "MAX_SAFE_INTEGER = 9007199254740991"

text \<open>
  An entry of the \<open>pages\<close> array of \<open>Pagination.jsx\<close> is either a page number or the
  constant \<open>PLACEHOLDER = '...'\<close>.
\<close>

datatype page = Page int | PLACEHOLDER

text \<open>
  Modelled from the spec: \<open>range\<close> is imported from \<open>utils/common\<close>, which is not among
  the sources. The spec calls it a standard numeric range operation, and the comment in
  \<open>Pagination.jsx\<close> (ten pages, two neighbours, current page 6 gives \<open>{4 5} [6] {7 8}\<close>
  from \<open>range(4, 8)\<close>) fixes it as the ascending list of the integers from \<open>from\<close> to
  \<open>to\<close>, both included, empty when \<open>to < from\<close>.
\<close>

definition range_int :: "int \<Rightarrow> int \<Rightarrow> int list" where
  "range_int from to = [from..to]"

text \<open>\<open>const pageNeighbors = isWide ? 2 : 1\<close>\<close>

definition pageNeighbors :: "bool \<Rightarrow> int" where
  "pageNeighbors isWide = (if isWide then 2 else 1)"

text \<open>
  The body of the \<open>useMemo\<close> callback, lines 46 to 86. The three branches that add
  placeholders are tested in the order of the source; when none applies the window is
  kept as it is. The argument \<open>neighbors\<close> is the value of \<open>pageNeighbors\<close> that the
  callback closes over, 1 or 2, so that \<open>totalNumbers\<close>, \<open>totalBlocks\<close> and
  \<open>spillOffset\<close> are small integers, computed exactly. The other sums and differences
  involve the page numbers and are rounded.
\<close>

definition pages :: "int \<Rightarrow> int \<Rightarrow> int \<Rightarrow> page list" where
  "pages neighbors currentPage totalPages =
    (let totalNumbers = neighbors * 2 + 3;
         totalBlocks = totalNumbers + 2
     in if totalPages > totalBlocks then
          (let startPage = max 2 (js_sub currentPage neighbors);
               endPage = min (js_sub totalPages 1) (js_add currentPage neighbors);
               window = map Page (range_int startPage endPage);
               hasLeftSpill = startPage > 2;
               hasRightSpill = js_sub totalPages endPage > 1;
               spillOffset = totalNumbers - (int (length window) + 1);
               spilled =
                 (if hasLeftSpill \<and> \<not> hasRightSpill then
                    (let extraPages =
                           map Page (range_int (js_sub startPage spillOffset) (js_sub startPage 1))
                     in [PLACEHOLDER] @ extraPages @ window)
                  else if \<not> hasLeftSpill \<and> hasRightSpill then
                    (let extraPages =
                           map Page (range_int (js_add endPage 1) (js_add endPage spillOffset))
                     in window @ extraPages @ [PLACEHOLDER])
                  else if hasLeftSpill \<and> hasRightSpill then
                    [PLACEHOLDER] @ window @ [PLACEHOLDER]
                  else window)
           in [Page 1] @ spilled @ [Page totalPages])
        else map Page (range_int 1 totalPages))"

text \<open>The numeric entries of a pages list, in order, placeholders dropped.\<close>

fun page_numbers :: "page list \<Rightarrow> int list" where
  "page_numbers [] = []"
| "page_numbers (Page n # ps) = n # page_numbers ps"
| "page_numbers (PLACEHOLDER # ps) = page_numbers ps"

section \<open>The query string: \<open>URLSearchParams\<close>\<close>

text \<open>
  \<open>getUpdatedSearchParams\<close> works through the platform class \<open>URLSearchParams\<close>. The
  class is modelled after the URL standard: its state is a list of name-value pairs, the
  constructor parses a string in the \<open>application/x-www-form-urlencoded\<close> format, and
  \<open>toString\<close> serialises the list in that format. A JavaScript string is represented
  by the bytes of its UTF-8 form, so \<open>string\<close> (a list of 8-bit characters) is the type
  of every string here, and the standard's step "UTF-8 encode" is the identity.
\<close>

subsection \<open>Percent-encoding of bytes\<close>

definition hex_upper :: "nat \<Rightarrow> char" where
  "hex_upper n = (if n < 10 then char_of (48 + n) else char_of (55 + n))"

definition hex_value :: "char \<Rightarrow> nat option" where
  "hex_value c =
    (let n = of_char c :: nat
     in if 48 \<le> n \<and> n \<le> 57 then Some (n - 48)
        else if 65 \<le> n \<and> n \<le> 70 then Some (n - 55)
        else if 97 \<le> n \<and> n \<le> 102 then Some (n - 87)
        else None)"

definition percent_encode_byte :: "char \<Rightarrow> string" where
  "percent_encode_byte c =
    [CHR ''%'', hex_upper (of_char c div 16), hex_upper (of_char c mod 16)]"

text \<open>
  The bytes that the \<open>application/x-www-form-urlencoded\<close> percent-encode set leaves
  alone: ASCII letters and digits, and \<open>*\<close>, \<open>-\<close>, \<open>.\<close>, \<open>_\<close>.
\<close>

definition urlencoded_plain :: "char \<Rightarrow> bool" where
  "urlencoded_plain c =
    (let n = of_char c :: nat
     in (48 \<le> n \<and> n \<le> 57) \<or> (65 \<le> n \<and> n \<le> 90) \<or> (97 \<le> n \<and> n \<le> 122)
        \<or> n = 42 \<or> n = 45 \<or> n = 46 \<or> n = 95)"

text \<open>Percent-encode after encoding, with space as plus.\<close>

fun urlencoded_encode :: "string \<Rightarrow> string" where
  "urlencoded_encode [] = []"
| "urlencoded_encode (c # cs) =
    (if c = CHR '' '' then [CHR ''+'']
     else if urlencoded_plain c then [c]
     else percent_encode_byte c) @ urlencoded_encode cs"

text \<open>
  Percent-decode: a \<open>%\<close> followed by two hexadecimal digits is the byte they denote;
  any other byte, and a \<open>%\<close> not followed by two such digits, stands for itself.
\<close>

fun percent_decode :: "string \<Rightarrow> string" where
  "percent_decode (c # h1 # h2 # cs) =
    (case (c = CHR ''%'', hex_value h1, hex_value h2) of
       (True, Some a, Some b) \<Rightarrow> char_of (a * 16 + b) # percent_decode cs
     | _ \<Rightarrow> c # percent_decode (h1 # h2 # cs))"
| "percent_decode (c # cs) = c # percent_decode cs"
| "percent_decode [] = []"

subsection \<open>UTF-8\<close>

text \<open>
  The UTF-8 decoder of the Encoding standard is a state machine over the bytes. Its
  state and its handler are transcribed here. The handler takes the state and a byte and
  gives the new state with what it returns: nothing yet (\<open>Continue\<close>), a code point, an
  error, or an error with the byte put back on the input. The masks \<open>byte & 0x1F\<close>,
  \<open>byte & 0xF\<close>, \<open>byte & 0x7\<close> and \<open>byte & 0x3F\<close> are written with \<open>mod\<close>, and
  \<open>(code point << 6) | (byte & 0x3F)\<close> as a sum, the low six bits of the shifted value
  being zero.
\<close>

record decoder =
  code_point :: nat
  bytes_seen :: nat
  bytes_needed :: nat
  lower_boundary :: nat
  upper_boundary :: nat

definition decoder_init :: decoder where
  "decoder_init = \<lparr>code_point = 0, bytes_seen = 0, bytes_needed = 0,
                    lower_boundary = 0x80, upper_boundary = 0xBF\<rparr>"

datatype handler_result = Continue | Code_point nat | Error | Error_restore

definition utf8_handler :: "decoder \<Rightarrow> nat \<Rightarrow> decoder \<times> handler_result" where
  "utf8_handler d b =
    (if bytes_needed d = 0 then
       (if b \<le> 0x7F then (d, Code_point b)
        else if 0xC2 \<le> b \<and> b \<le> 0xDF then
          (d\<lparr>bytes_needed := 1, code_point := b mod 32\<rparr>, Continue)
        else if 0xE0 \<le> b \<and> b \<le> 0xEF then
          (d\<lparr>lower_boundary := (if b = 0xE0 then 0xA0 else lower_boundary d),
             upper_boundary := (if b = 0xED then 0x9F else upper_boundary d),
             bytes_needed := 2, code_point := b mod 16\<rparr>, Continue)
        else if 0xF0 \<le> b \<and> b \<le> 0xF4 then
          (d\<lparr>lower_boundary := (if b = 0xF0 then 0x90 else lower_boundary d),
             upper_boundary := (if b = 0xF4 then 0x8F else upper_boundary d),
             bytes_needed := 3, code_point := b mod 8\<rparr>, Continue)
        else (d, Error))
     else if b < lower_boundary d \<or> upper_boundary d < b then
       (d\<lparr>code_point := 0, bytes_needed := 0, bytes_seen := 0,
          lower_boundary := 0x80, upper_boundary := 0xBF\<rparr>, Error_restore)
     else
       (let d' = d\<lparr>lower_boundary := 0x80, upper_boundary := 0xBF,
                     code_point := code_point d * 64 + b mod 64,
                     bytes_seen := bytes_seen d + 1\<rparr>
        in if bytes_seen d' \<noteq> bytes_needed d' then (d', Continue)
           else (d'\<lparr>code_point := 0, bytes_needed := 0, bytes_seen := 0\<rparr>,
                 Code_point (code_point d'))))"

lemma utf8_handler_restore:
  "utf8_handler d b = (d', Error_restore) \<Longrightarrow> bytes_needed d \<noteq> 0 \<and> bytes_needed d' = 0"
  by (auto simp: utf8_handler_def Let_def split: if_splits)

text \<open>
  Running the decoder over the input with the replacement error mode: an error yields
  \<open>U+FFFD\<close>, and so does an input that ends inside a sequence.
\<close>

function utf8_decoder :: "decoder \<Rightarrow> string \<Rightarrow> nat list" where
  "utf8_decoder d [] = (if bytes_needed d \<noteq> 0 then [0xFFFD] else [])"
| "utf8_decoder d (c # cs) =
    (case utf8_handler d (of_char c) of
       (d', Continue) \<Rightarrow> utf8_decoder d' cs
     | (d', Code_point cp) \<Rightarrow> cp # utf8_decoder d' cs
     | (d', Error) \<Rightarrow> 0xFFFD # utf8_decoder d' cs
     | (d', Error_restore) \<Rightarrow> 0xFFFD # utf8_decoder d' (c # cs))"
  by pat_completeness auto
termination
  by (relation "measure (\<lambda>(d, bs). 2 * length bs + (if bytes_needed d = 0 then 0 else 1))")
     (auto dest: utf8_handler_restore [OF sym])

declare utf8_decoder.simps [simp del]

text \<open>The UTF-8 encoder of the Encoding standard, for one code point.\<close>

definition utf8_encode_code_point :: "nat \<Rightarrow> string" where
  "utf8_encode_code_point cp =
    (if cp \<le> 0x7F then [char_of cp]
     else if cp \<le> 0x7FF then
       [char_of (cp div 64 + 0xC0), char_of (0x80 + cp mod 64)]
     else if cp \<le> 0xFFFF then
       [char_of (cp div 4096 + 0xE0), char_of (0x80 + cp div 64 mod 64),
        char_of (0x80 + cp mod 64)]
     else
       [char_of (cp div 262144 + 0xF0), char_of (0x80 + cp div 4096 mod 64),
        char_of (0x80 + cp div 64 mod 64), char_of (0x80 + cp mod 64)])"

text \<open>
  UTF-8 decode without BOM: the decoded string, again in its UTF-8 form.
\<close>

definition utf8_decode_without_BOM :: "string \<Rightarrow> string" where
  "utf8_decode_without_BOM bs =
    concat (map utf8_encode_code_point (utf8_decoder decoder_init bs))"

subsection \<open>Parsing and serialising\<close>

text \<open>
  Splitting at a delimiter. The result always has at least one piece, so the second
  branch of the inner case distinction is never taken.
\<close>

fun split_on :: "char \<Rightarrow> string \<Rightarrow> string list" where
  "split_on d [] = [[]]"
| "split_on d (c # cs) =
    (if c = d then [] # split_on d cs
     else (case split_on d cs of
             piece # pieces \<Rightarrow> (c # piece) # pieces
           | [] \<Rightarrow> [[c]]))"

definition plus_to_space :: "string \<Rightarrow> string" where
  "plus_to_space bs = map (\<lambda>c. if c = CHR ''+'' then CHR '' '' else c) bs"

definition urlencoded_decode :: "string \<Rightarrow> string" where
  "urlencoded_decode bs = utf8_decode_without_BOM (percent_decode (plus_to_space bs))"

text \<open>
  The \<open>application/x-www-form-urlencoded\<close> parser: the pieces between \<open>&\<close>, the empty
  ones skipped; a piece is split at its first \<open>=\<close>, and has the empty value when it has
  none.
\<close>

definition parse_pair :: "string \<Rightarrow> string \<times> string" where
  "parse_pair bs =
    (urlencoded_decode (takeWhile (\<lambda>c. c \<noteq> CHR ''='') bs),
     urlencoded_decode (drop 1 (dropWhile (\<lambda>c. c \<noteq> CHR ''='') bs)))"

definition urlencoded_parse :: "string \<Rightarrow> (string \<times> string) list" where
  "urlencoded_parse input = map parse_pair (filter (\<lambda>bs. bs \<noteq> []) (split_on CHR ''&'' input))"

text \<open>\<open>new URLSearchParams(init)\<close> for a string: one leading \<open>?\<close> is dropped.\<close>

definition URLSearchParams :: "string \<Rightarrow> (string \<times> string) list" where
  "URLSearchParams init =
    urlencoded_parse (case init of c # cs \<Rightarrow> if c = CHR ''?'' then cs else init | [] \<Rightarrow> init)"

text \<open>\<open>delete(name)\<close>: every pair of that name is removed.\<close>

definition delete :: "string \<Rightarrow> (string \<times> string) list \<Rightarrow> (string \<times> string) list" where
  "delete name params = filter (\<lambda>(n, v). n \<noteq> name) params"

text \<open>
  \<open>set(name, value)\<close>: when there are pairs of that name, the first gets the value and
  the others are removed; otherwise the pair is appended.
\<close>

fun set_first :: "string \<Rightarrow> string \<Rightarrow> (string \<times> string) list \<Rightarrow> (string \<times> string) list" where
  "set_first name val [] = []"
| "set_first name val ((n, v) # params) =
    (if n = name then (n, val) # delete name params
     else (n, v) # set_first name val params)"

definition set_param :: "string \<Rightarrow> string \<Rightarrow> (string \<times> string) list \<Rightarrow> (string \<times> string) list" where
  "set_param name val params =
    (if name \<in> fst ` set params then set_first name val params
     else params @ [(name, val)])"

text \<open>\<open>toString()\<close>: the pairs as \<open>name=value\<close>, joined by \<open>&\<close>.\<close>

fun toString :: "(string \<times> string) list \<Rightarrow> string" where
  "toString [] = []"
| "toString [(n, v)] = urlencoded_encode n @ ''='' @ urlencoded_encode v"
| "toString ((n, v) # p # params) =
    urlencoded_encode n @ ''='' @ urlencoded_encode v @ ''&'' @ toString (p # params)"

subsection \<open>Numbers as strings\<close>

text \<open>The decimal notation of a natural number.\<close>

fun digits :: "nat \<Rightarrow> string" where
  "digits n = (if n < 10 then [char_of (48 + n)] else digits (n div 10) @ [char_of (48 + n mod 10)])"

declare digits.simps [simp del]

text \<open>
  \<open>set('page', page)\<close> converts the Number to a string, by \<open>Number::toString\<close> of the
  language standard. For a positive Number \<open>x\<close> that holds an integer of \<open>d\<close> digits, the
  standard takes the least number \<open>k\<close> of significant digits for which some \<open>k\<close>-digit
  decimal rounds to \<open>x\<close>, and of the candidates the nearest to \<open>x\<close> (the one with the
  even last digit when two are equally near). \<open>shortest\<close> searches from \<open>k\<close> upwards;
  \<open>lo\<close> and \<open>hi\<close> are the \<open>k\<close>-digit decimals next to \<open>x\<close>, and the result is the
  integer that the chosen decimal denotes.
\<close>

function shortest :: "int \<Rightarrow> nat \<Rightarrow> nat \<Rightarrow> int" where
  "shortest x d k =
    (if d \<le> k then x
     else (let p = 10 ^ (d - k); lo = x div p * p; hi = lo + p;
               ok_lo = (js_round lo = x); ok_hi = (js_round hi = x)
           in if ok_lo \<and> ok_hi then
                (if x - lo < hi - x then lo
                 else if hi - x < x - lo then hi
                 else if even (x div p) then lo
                 else hi)
              else if ok_lo then lo
              else if ok_hi then hi
              else shortest x d (Suc k)))"
  by pat_completeness auto
termination
  by (relation "measure (\<lambda>(x, d, k). d - k)") auto

declare shortest.simps [simp del]

function strip_zeros :: "nat \<Rightarrow> nat" where
  "strip_zeros n = (if n = 0 \<or> n mod 10 \<noteq> 0 then n else strip_zeros (n div 10))"
  by pat_completeness auto
termination
  by (relation "measure id") auto

declare strip_zeros.simps [simp del]

text \<open>
  The digits are written out in full when there are at most 21 of them, and otherwise
  in the exponent form, as in \<open>1e+21\<close> and \<open>1.2e+25\<close>. The argument is a Number that
  is not negative; for 0 the result is \<open>0\<close>.
\<close>

definition positive_to_string :: "int \<Rightarrow> string" where
  "positive_to_string x =
    (let v = nat (shortest x (length (digits (nat x))) 1);
         n = length (digits v)
     in if n \<le> 21 then digits v
        else (case digits (strip_zeros v) of
                [] \<Rightarrow> []
              | c # cs \<Rightarrow>
                  c # (if cs = [] then [] else CHR ''.'' # cs) @ ''e+'' @ digits (n - 1)))"

definition number_to_string :: "int \<Rightarrow> string" where
  "number_to_string i =
    (if i < 0 then CHR ''-'' # positive_to_string (- i) else positive_to_string i)"

section \<open>Pagination: links and rendering\<close>

text \<open>\<open>getUpdatedSearchParams(searchString, { page })\<close>, lines 11 to 20.\<close>

definition getUpdatedSearchParams :: "string \<Rightarrow> int \<Rightarrow> string" where
  "getUpdatedSearchParams searchString page =
    (let searchParams = URLSearchParams searchString
     in toString (if page = 1 then delete ''page'' searchParams
                  else set_param ''page'' (number_to_string page) searchParams))"

record location =
  pathname :: string
  search :: string

text \<open>\<open>getPageLink(page)\<close>, lines 133 to 141; a string is truthy when it is not empty.\<close>

definition getPageLink :: "location \<Rightarrow> int \<Rightarrow> string" where
  "getPageLink loc page =
    (let params = getUpdatedSearchParams (search loc) page
     in if params \<noteq> [] then pathname loc @ ''?'' @ params @ ''#results''
        else pathname loc)"

text \<open>
  What the component returns, reduced to what depends on its inputs: the two arrows with
  their \<open>hidden\<close> flag and link, and one block for each entry of \<open>pages\<close>, a placeholder
  box or a button with its link, whether it is the active page, and its page number.
\<close>

datatype block = PlaceholderBox | PageButton string bool int

record navigation =
  prev_hidden :: bool
  prev_linkTo :: string
  blocks :: "block list"
  next_hidden :: bool
  next_linkTo :: string

text \<open>The callback of \<open>pages.map\<close>, lines 160 to 213.\<close>

fun render_page :: "location \<Rightarrow> int \<Rightarrow> page \<Rightarrow> block" where
  "render_page loc currentPage PLACEHOLDER = PlaceholderBox"
| "render_page loc currentPage (Page n) = PageButton (getPageLink loc n) (currentPage = n) n"

text \<open>
  The component, lines 29 to 221. \<open>location = None\<close> is a \<open>location\<close> prop that is
  \<open>null\<close> or \<open>undefined\<close>, and the result \<open>None\<close> is the \<open>null\<close> of line 124.
  \<open>isWide\<close> is the result of the media query.
\<close>

definition Pagination :: "location option \<Rightarrow> int \<Rightarrow> int \<Rightarrow> bool \<Rightarrow> navigation option" where
  "Pagination location currentPage totalPages isWide =
    (let pgs = pages (pageNeighbors isWide) currentPage totalPages
     in case location of
          None \<Rightarrow> None
        | Some loc \<Rightarrow>
            Some \<lparr>prev_hidden = (currentPage = 1),
                  prev_linkTo = getPageLink loc (js_sub currentPage 1),
                  blocks = map (render_page loc currentPage) pgs,
                  next_hidden = (currentPage = totalPages),
                  next_linkTo = getPageLink loc (js_add currentPage 1)\<rparr>)"

section \<open>Footer links\<close>

record menu_link =
  name :: string
  slug :: string

text \<open>One rendered \<open>NavItem\<close>: the link's text, its target, and the \<open>isExternal\<close> flag.\<close>

record nav_item =
  label :: string
  to :: string
  isExternal :: bool

text \<open>\<open>FooterLinks\<close>, lines 22 to 47, for the \<open>menuLinks\<close> of the query result.\<close>

definition FooterLinks :: "menu_link list \<Rightarrow> nav_item list" where
  "FooterLinks menuLinks =
    map (\<lambda>link. \<lparr>label = name link,
                  to = (if slug link \<noteq> ''/watch'' then slug link else ''http://bit.ly/3csKkSE''),
                  isExternal = (slug link = ''/watch'')\<rparr>)
        (menuLinks @ [\<lparr>name = ''Legal'', slug = ''/legal''\<rparr>])"

section \<open>Notions used in the proofs\<close>

text \<open>
  The \<open>useMemo\<close> callback in exact integer arithmetic, with which \<open>pages\<close> agrees
  on the safe integers.
\<close>

definition pages_exact :: "int \<Rightarrow> int \<Rightarrow> int \<Rightarrow> page list" where
  "pages_exact neighbors currentPage totalPages =
    (let totalNumbers = neighbors * 2 + 3;
         totalBlocks = totalNumbers + 2
     in if totalPages > totalBlocks then
          (let startPage = max 2 (currentPage - neighbors);
               endPage = min (totalPages - 1) (currentPage + neighbors);
               window = map Page (range_int startPage endPage);
               hasLeftSpill = startPage > 2;
               hasRightSpill = totalPages - endPage > 1;
               spillOffset = totalNumbers - (int (length window) + 1);
               spilled =
                 (if hasLeftSpill \<and> \<not> hasRightSpill then
                    (let extraPages =
                           map Page (range_int (startPage - spillOffset) (startPage - 1))
                     in [PLACEHOLDER] @ extraPages @ window)
                  else if \<not> hasLeftSpill \<and> hasRightSpill then
                    (let extraPages =
                           map Page (range_int (endPage + 1) (endPage + spillOffset))
                     in window @ extraPages @ [PLACEHOLDER])
                  else if hasLeftSpill \<and> hasRightSpill then
                    [PLACEHOLDER] @ window @ [PLACEHOLDER]
                  else window)
           in [Page 1] @ spilled @ [Page totalPages])
        else map Page (range_int 1 totalPages))"


text \<open>
  A Unicode scalar value: a code point up to \<open>U+10FFFF\<close> that is not a surrogate.
\<close>

definition scalar_value :: "nat \<Rightarrow> bool" where
  "scalar_value cp = (cp \<le> 0x10FFFF \<and> \<not> (0xD800 \<le> cp \<and> cp \<le> 0xDFFF))"

text \<open>
  The states that the decoder reaches from its initial state. Between sequences the
  boundaries are \<open>0x80\<close> and \<open>0xBF\<close>; inside a sequence the code point collected so
  far, with the boundaries for the next byte, can only be completed to a scalar value.
\<close>

definition decoder_ok :: "decoder \<Rightarrow> bool" where
  "decoder_ok d =
    (0x80 \<le> lower_boundary d \<and> upper_boundary d \<le> 0xBF \<and>
     (if bytes_needed d = 0 then
        bytes_seen d = 0 \<and> lower_boundary d = 0x80 \<and> upper_boundary d = 0xBF
      else
        bytes_seen d < bytes_needed d \<and> bytes_needed d \<le> 3 \<and>
        (bytes_needed d - bytes_seen d = 1 \<longrightarrow>
           code_point d \<le> 0x43FF \<and> \<not> (0x360 \<le> code_point d \<and> code_point d \<le> 0x37F)) \<and>
        (bytes_needed d - bytes_seen d = 2 \<longrightarrow>
           code_point d \<le> 0x10F \<and> (code_point d = 13 \<longrightarrow> upper_boundary d \<le> 0x9F)) \<and>
        (bytes_needed d - bytes_seen d = 3 \<longrightarrow>
           code_point d \<le> 4 \<and> (code_point d = 4 \<longrightarrow> upper_boundary d \<le> 0x8F)
           \<and> (code_point d = 0 \<longrightarrow> 0x90 \<le> lower_boundary d))))"

text \<open>One serialised pair, \<open>name=value\<close>.\<close>

definition piece :: "string \<times> string \<Rightarrow> string" where
  "piece p = urlencoded_encode (fst p) @ ''='' @ urlencoded_encode (snd p)"

text \<open>A list of parameters whose names and values are decoded strings.\<close>

definition decoded_params :: "(string \<times> string) list \<Rightarrow> bool" where
  "decoded_params ps =
    (\<forall>p \<in> set ps. utf8_decode_without_BOM (fst p) = fst p \<and> utf8_decode_without_BOM (snd p) = snd p)"

section \<open>Properties of the page window\<close>

lemma length_range_int: "length (range_int a b) = nat (b - a + 1)"
  by (simp add: range_int_def)

lemma set_range_int: "set (range_int a b) = {a..b}"
  by (simp add: range_int_def)


lemma page_numbers_map_Page: "page_numbers (map Page ns) = ns"
  by (induction ns) simp_all

text \<open>
  C3: when \<open>1 \<le> totalPages \<le> 2 * pageNeighbors + 5\<close>, whatever the current page, the
  pages list is exactly the page numbers \<open>1, 2, ..., totalPages\<close>, with no placeholder.
\<close>

theorem pages_small_all:
  assumes "1 \<le> totalPages" and "totalPages \<le> 2 * pn + 5"
  shows "pages pn currentPage totalPages = map Page [1..totalPages]
    \<and> PLACEHOLDER \<notin> set (pages pn currentPage totalPages)
    \<and> page_numbers (pages pn currentPage totalPages) = [1..totalPages]"
proof -
  have eq: "pages pn currentPage totalPages = map Page [1..totalPages]"
    using assms by (simp add: pages_def range_int_def Let_def)
  moreover have "PLACEHOLDER \<notin> set (map Page [1..totalPages])"
    by auto
  ultimately show ?thesis
    by (simp add: page_numbers_map_Page)
qed

theorem pages_small_all_witness:
  "(1::int) \<le> 7 \<and> (7::int) \<le> 2 * 1 + 5
   \<and> pages 1 3 7 = [Page 1, Page 2, Page 3, Page 4, Page 5, Page 6, Page 7]"
proof -
  have h1: "(1::int) \<le> 7" by simp
  have h2: "(7::int) \<le> 2 * 1 + 5" by simp
  show ?thesis
    using pages_small_all [OF h1 h2, of 3] by (simp add: upto.simps)
qed

subsection \<open>Rounding\<close>

lemma bit_length_le: "x < 2 ^ n \<Longrightarrow> bit_length x \<le> n"
proof (induction n arbitrary: x)
  case 0
  then show ?case by (subst bit_length.simps) simp
next
  case (Suc n)
  show ?case
  proof (cases "x \<le> 0")
    case True
    then show ?thesis by (subst bit_length.simps) simp
  next
    case False
    from Suc.prems have "x div 2 < 2 ^ n" by simp
    then have "bit_length (x div 2) \<le> n" by (rule Suc.IH)
    with False show ?thesis by (subst bit_length.simps) simp
  qed
qed

lemma bit_length_gt: "2 ^ n \<le> x \<Longrightarrow> n < bit_length x"
proof (induction n arbitrary: x)
  case 0
  then show ?case by (subst bit_length.simps) simp
next
  case (Suc n)
  have "(0::int) < 2 ^ Suc n"
    by simp
  with Suc.prems have pos: "\<not> x \<le> 0"
    by linarith
  from Suc.prems have "2 ^ n \<le> x div 2" by simp
  then have "n < bit_length (x div 2)" by (rule Suc.IH)
  with pos show ?case by (subst bit_length.simps) simp
qed

lemma bit_length_eq: "2 ^ n \<le> x \<Longrightarrow> x < 2 ^ Suc n \<Longrightarrow> bit_length x = Suc n"
  using bit_length_le [of x "Suc n"] bit_length_gt [of n x] by simp

lemma bit_length_bound:
  assumes "0 < x"
  shows "2 ^ (bit_length x - 1) \<le> x"
  using assms
proof (induction x rule: bit_length.induct)
  case (1 x)
  show ?case
  proof (cases "x div 2 \<le> 0")
    case True
    with "1.prems" have "x = 1" by linarith
    then show ?thesis
      by (simp add: bit_length.simps [of 1] bit_length.simps [of 0])
  next
    case False
    with "1.IH" "1.prems" have ih: "2 ^ (bit_length (x div 2) - 1) \<le> x div 2"
      by simp
    have "0 < bit_length (x div 2)"
      using False by (subst bit_length.simps) simp
    then have "(2::int) ^ bit_length (x div 2) = 2 * 2 ^ (bit_length (x div 2) - 1)"
      by (cases "bit_length (x div 2)") simp_all
    with ih have "2 ^ bit_length (x div 2) \<le> x"
      by linarith
    with "1.prems" show ?thesis
      by (subst bit_length.simps) simp
  qed
qed

lemma js_round_exact: "\<bar>x\<bar> \<le> 9007199254740992 \<Longrightarrow> js_round x = x"
proof (cases "\<bar>x\<bar> = 9007199254740992")
  case True
  have bl: "bit_length (9007199254740992::int) = Suc 53"
    by (rule bit_length_eq) simp_all
  from True consider "x = 9007199254740992" | "x = - 9007199254740992"
    by linarith
  then show ?thesis
  proof cases
    case 1
    then show ?thesis
      by (simp add: js_round_def Let_def bl)
  next
    case 2
    then show ?thesis
      by (simp add: js_round_def Let_def bl)
  qed
next
  case False
  assume "\<bar>x\<bar> \<le> 9007199254740992"
  with False have "\<bar>x\<bar> < 2 ^ 53" by simp
  then have "bit_length \<bar>x\<bar> \<le> 53" by (rule bit_length_le)
  then show ?thesis by (simp add: js_round_def)
qed

lemma js_round_large:
  assumes "9007199254740992 \<le> x"
  shows "9007199254740992 \<le> js_round x"
proof (cases "bit_length \<bar>x\<bar> \<le> 53")
  case True
  with assms show ?thesis by (simp add: js_round_def)
next
  case False
  define e where "e = bit_length \<bar>x\<bar> - 53"
  define u :: int where "u = 2 ^ e"
  from False have e: "0 < e" and bl: "bit_length \<bar>x\<bar> - 1 = 52 + e"
    by (simp_all add: e_def)
  have "0 < x" using assms by simp
  then have "2 ^ (bit_length \<bar>x\<bar> - 1) \<le> x"
    using bit_length_bound [of x] by simp
  moreover have "(2::int) ^ (bit_length \<bar>x\<bar> - 1) = 2 ^ 52 * u"
    unfolding bl u_def by (rule power_add)
  ultimately have "2 ^ 52 * u \<le> x"
    by simp
  moreover have upos: "0 < u" by (simp add: u_def)
  ultimately have "(2 ^ 52 * u) div u \<le> x div u"
    by (intro zdiv_mono1)
  with upos have q: "2 ^ 52 \<le> x div u"
    by simp
  have "2 \<le> u"
    using e by (cases e) (simp_all add: u_def)
  with q have "2 ^ 52 * 2 \<le> x div u * u"
    by (intro mult_mono) simp_all
  then have "9007199254740992 \<le> x div u * u"
    by simp
  moreover have "x div u * u \<le> (x div u + 1) * u"
    using upos by (simp add: distrib_right)
  moreover have "js_round x = x div u * u \<or> js_round x = (x div u + 1) * u"
    using False by (simp add: js_round_def Let_def e_def u_def)
  ultimately show ?thesis
    by linarith
qed


lemma js_round_binade:
  assumes "2 ^ (52 + e) \<le> \<bar>x\<bar>" and "\<bar>x\<bar> < 2 ^ (53 + e)" and "0 < e"
  shows "js_round x =
    (let u = 2 ^ e; q = x div u; r = x mod u
     in if 2 * r < u then q * u
        else if u < 2 * r then (q + 1) * u
        else if even q then q * u
        else (q + 1) * u)"
proof -
  have "bit_length \<bar>x\<bar> = Suc (52 + e)"
    using assms(1,2) by (intro bit_length_eq) simp_all
  with assms(3) show ?thesis
    by (simp add: js_round_def)
qed

lemma js_round_above: "js_round 9007199254740993 = 9007199254740992"
  by (subst js_round_binade [of 1]) simp_all

lemma js_round_below: "js_round (- 9007199254740993) = - 9007199254740992"
  by (subst js_round_binade [of 1]) simp_all

lemma js_round_gt_1: "(1 < js_round x) = (1 < x)"
proof (cases "\<bar>x\<bar> \<le> 9007199254740992")
  case True
  then show ?thesis by (simp add: js_round_exact)
next
  case False
  then consider "9007199254740992 \<le> x" | "x < - 9007199254740992"
    by linarith
  then show ?thesis
  proof cases
    case 1
    with js_round_large [OF 1] show ?thesis by simp
  next
    case 2
    then have neg: "x < 0" by simp
    have "js_round x \<le> 0"
    proof (cases "bit_length \<bar>x\<bar> \<le> 53")
      case True
      with neg show ?thesis by (simp add: js_round_def)
    next
      case False
      define u :: int where "u = 2 ^ (bit_length \<bar>x\<bar> - 53)"
      have upos: "0 < u" by (simp add: u_def)
      have "x div u < 0"
        using neg upos by (simp add: div_neg_pos_less0)
      then have "(x div u + 1) * u \<le> 0" "x div u * u \<le> 0"
        using upos by (simp_all add: mult_le_0_iff)
      moreover have "js_round x = x div u * u \<or> js_round x = (x div u + 1) * u"
        using False by (simp add: js_round_def Let_def u_def)
      ultimately show ?thesis by linarith
    qed
    with neg show ?thesis by simp
  qed
qed

lemma pages_safe:
  assumes pn: "pn = 1 \<or> pn = 2"
    and tp: "1 \<le> totalPages" "totalPages \<le> MAX_SAFE_INTEGER"
    and cp: "- MAX_SAFE_INTEGER \<le> currentPage" "currentPage \<le> MAX_SAFE_INTEGER"
  shows "pages pn currentPage totalPages = pages_exact pn currentPage totalPages"
proof -
  let ?sp = "max 2 (currentPage - pn)"
  let ?ep = "min (totalPages - 1) (currentPage + pn)"
  let ?so = "pn * 2 + 3 - (int (length (map Page (range_int ?sp ?ep))) + 1)"
  note bounds = pn tp cp [unfolded MAX_SAFE_INTEGER_def] tp(2) [unfolded MAX_SAFE_INTEGER_def]
  have a: "max 2 (js_sub currentPage pn) = ?sp"
  proof (cases "currentPage - pn = - 9007199254740993")
    case True
    then show ?thesis by (simp add: js_sub_def js_round_below)
  next
    case False
    with bounds have "\<bar>currentPage - pn\<bar> \<le> 9007199254740992" by linarith
    then show ?thesis by (simp add: js_sub_def js_round_exact)
  qed
  have b1: "js_sub totalPages 1 = totalPages - 1"
    using bounds by (simp add: js_sub_def js_round_exact)
  have b2: "min (totalPages - 1) (js_add currentPage pn) = ?ep"
  proof (cases "currentPage + pn = 9007199254740993")
    case True
    with bounds show ?thesis by (simp add: js_add_def js_round_above)
  next
    case False
    with bounds have "\<bar>currentPage + pn\<bar> \<le> 9007199254740992" by linarith
    then show ?thesis by (simp add: js_add_def js_round_exact)
  qed
  have c: "(1 < js_sub totalPages ?ep) = (1 < totalPages - ?ep)"
    by (simp only: js_sub_def js_round_gt_1)
  have so: "1 \<le> ?so" "?so \<le> 6"
    using bounds by (auto simp: length_range_int)
  have d: "js_sub ?sp ?so = ?sp - ?so" "js_sub ?sp 1 = ?sp - 1" if "2 < ?sp"
  proof -
    from that bounds so have "\<bar>?sp - ?so\<bar> \<le> 9007199254740992" "\<bar>?sp - 1\<bar> \<le> 9007199254740992"
      by linarith+
    then show "js_sub ?sp ?so = ?sp - ?so" "js_sub ?sp 1 = ?sp - 1"
      by (simp_all only: js_sub_def js_round_exact)
  qed
  have e: "js_add ?ep ?so = ?ep + ?so" "js_add ?ep 1 = ?ep + 1" if "\<not> 2 < ?sp"
  proof -
    from that bounds so have "\<bar>?ep + ?so\<bar> \<le> 9007199254740992" "\<bar>?ep + 1\<bar> \<le> 9007199254740992"
      by linarith+
    then show "js_add ?ep ?so = ?ep + ?so" "js_add ?ep 1 = ?ep + 1"
      by (simp_all only: js_add_def js_round_exact)
  qed
  show ?thesis
  proof (cases "2 < ?sp")
    case True
    then have "2 < currentPage - pn" by simp
    then show ?thesis
      unfolding pages_def pages_exact_def Let_def a b1 b2 c d [OF True]
      by simp
  next
    case False
    then have "\<not> 2 < currentPage - pn" by simp
    then show ?thesis
      unfolding pages_def pages_exact_def Let_def a b1 b2 c e [OF False]
      by simp
  qed
qed


lemma pages_exact_ends_and_window:
  assumes "1 \<le> currentPage" and "currentPage \<le> totalPages"
    and "pn = 1 \<or> pn = 2" and "totalPages > 2 * pn + 5"
  shows "pages_exact pn currentPage totalPages \<noteq> []
    \<and> hd (pages_exact pn currentPage totalPages) = Page 1
    \<and> last (pages_exact pn currentPage totalPages) = Page totalPages
    \<and> (\<forall>n. max 2 (currentPage - pn) \<le> n \<and> n \<le> min (totalPages - 1) (currentPage + pn)
          \<longrightarrow> Page n \<in> set (pages_exact pn currentPage totalPages))"
  using assms by (auto simp: pages_exact_def Let_def set_range_int)




text \<open>
  C1, for safe integers: for \<open>1 \<le> currentPage \<le> totalPages \<le> 2\<^sup>5\<^sup>3 - 1\<close>, one or two
  neighbours and more than \<open>2 * pageNeighbors + 5\<close> pages, the pages list starts with
  page 1, ends with the last page, and contains every page number from
  \<open>max 2 (currentPage - pageNeighbors)\<close> to
  \<open>min (totalPages - 1) (currentPage + pageNeighbors)\<close>.
\<close>

theorem pages_large_ends_and_window:
  assumes "1 \<le> currentPage" and "currentPage \<le> totalPages"
    and "totalPages \<le> MAX_SAFE_INTEGER"
    and "pn = 1 \<or> pn = 2" and "totalPages > 2 * pn + 5"
  shows "pages pn currentPage totalPages \<noteq> []
    \<and> hd (pages pn currentPage totalPages) = Page 1
    \<and> last (pages pn currentPage totalPages) = Page totalPages
    \<and> (\<forall>n. max 2 (currentPage - pn) \<le> n \<and> n \<le> min (totalPages - 1) (currentPage + pn)
          \<longrightarrow> Page n \<in> set (pages pn currentPage totalPages))"
proof -
  have "pages pn currentPage totalPages = pages_exact pn currentPage totalPages"
    using assms by (intro pages_safe) (simp_all add: MAX_SAFE_INTEGER_def)
  then show ?thesis
    using pages_exact_ends_and_window [OF assms(1,2,4,5)] by simp
qed

theorem pages_large_ends_and_window_witness:
  "(1::int) \<le> 6 \<and> (6::int) \<le> 10 \<and> 10 \<le> MAX_SAFE_INTEGER
   \<and> ((2::int) = 1 \<or> (2::int) = 2) \<and> (10::int) > 2 * 2 + 5
   \<and> hd (pages 2 6 10) = Page 1 \<and> last (pages 2 6 10) = Page 10
   \<and> Page 4 \<in> set (pages 2 6 10) \<and> Page 8 \<in> set (pages 2 6 10)"
proof -
  have h1: "(1::int) \<le> 6" and h2: "(6::int) \<le> 10" and h3: "10 \<le> MAX_SAFE_INTEGER"
    and h4: "(2::int) = 1 \<or> (2::int) = 2" and h5: "(10::int) > 2 * 2 + 5"
    by (simp_all add: MAX_SAFE_INTEGER_def)
  show ?thesis
    using pages_large_ends_and_window [OF h1 h2 h3 h4 h5] h3 by simp
qed

text \<open>
  Beyond the safe integers the property fails. With two neighbours and
  \<open>currentPage = totalPages = 2\<^sup>5\<^sup>3 + 2\<close>, the difference \<open>totalPages - 1\<close> is rounded
  to \<open>2\<^sup>5\<^sup>3\<close>, the window is the single page \<open>2\<^sup>5\<^sup>3\<close>, and \<open>2\<^sup>5\<^sup>3 + 1\<close>, which lies
  between the two bounds, is not in the list.
\<close>

lemma js_round_2p53_4: "js_round 9007199254740996 = 9007199254740996"
  by (subst js_round_binade [of 1]) simp_all

lemma pages_beyond_safe:
  "pages 2 9007199254740994 9007199254740994
    = [Page 1, PLACEHOLDER, Page 9007199254740992, PLACEHOLDER, Page 9007199254740994]"
  by (simp add: pages_def Let_def js_sub_def js_add_def js_round_above js_round_2p53_4
      js_round_exact range_int_def)

theorem pages_large_window_counterexample:
  "(1::int) \<le> 9007199254740994 \<and> (9007199254740994::int) \<le> 9007199254740994
   \<and> ((2::int) = 1 \<or> (2::int) = 2) \<and> (9007199254740994::int) > 2 * 2 + 5
   \<and> max 2 (9007199254740994 - 2) \<le> (9007199254740993::int)
   \<and> (9007199254740993::int) \<le> min (9007199254740994 - 1) (9007199254740994 + 2)
   \<and> Page 9007199254740993 \<notin> set (pages 2 9007199254740994 9007199254740994)"
  by (simp add: pages_beyond_safe)














section \<open>Properties of the component\<close>

text \<open>
  C4: when the \<open>location\<close> prop is absent, the component returns \<open>null\<close>, whatever the
  current page and the number of pages: no link is built.
\<close>

theorem Pagination_no_location:
  "Pagination None currentPage totalPages isWide = None"
  by (simp add: Pagination_def)

section \<open>Properties of the UTF-8 decoder\<close>

lemma decoder_ok_init: "decoder_ok decoder_init"
  by (simp add: decoder_ok_def decoder_init_def)

lemma mod_in_block:
  fixes b k m :: nat
  assumes "k * m \<le> b" and "b < k * m + m"
  shows "b mod m = b - k * m"
proof -
  define r where "r = b - k * m"
  have b: "b = r + k * m" and r: "r < m"
    using assms by (simp_all add: r_def)
  have "(r + k * m) mod m = r"
    using r by simp
  then show ?thesis
    using b by simp
qed

lemma mod32_lead: "0xC0 \<le> b \<Longrightarrow> b \<le> 0xDF \<Longrightarrow> b mod 32 = b - (0xC0::nat)"
  using mod_in_block [of 6 32 b] by simp

lemma mod16_lead: "0xE0 \<le> b \<Longrightarrow> b \<le> 0xEF \<Longrightarrow> b mod 16 = b - (0xE0::nat)"
  using mod_in_block [of 14 16 b] by simp

lemma mod8_lead: "0xF0 \<le> b \<Longrightarrow> b \<le> 0xF7 \<Longrightarrow> b mod 8 = b - (0xF0::nat)"
  using mod_in_block [of 30 8 b] by simp

lemma mod64_cont: "0x80 \<le> b \<Longrightarrow> b \<le> 0xBF \<Longrightarrow> b mod 64 = b - (0x80::nat)"
  using mod_in_block [of 2 64 b] by simp

lemma cont_step3:
  fixes cp b l u :: nat
  assumes "cp \<le> 4" and "cp = 4 \<longrightarrow> u \<le> 0x8F" and "cp = 0 \<longrightarrow> 0x90 \<le> l"
    and "l \<le> b" and "b \<le> u" and "0x80 \<le> b" and "b \<le> 0xBF"
  shows "cp * 64 + (b - 0x80) \<le> 0x10F \<and> cp * 64 + (b - 0x80) \<noteq> 13"
proof -
  consider "cp = 0" | "1 \<le> cp" "cp \<le> 3" | "cp = 4"
    using assms(1) by linarith
  then show ?thesis
    using assms by cases auto
qed

lemma cont_step2:
  fixes cp b u :: nat
  assumes "cp \<le> 0x10F" and "cp = 13 \<longrightarrow> u \<le> 0x9F"
    and "b \<le> u" and "0x80 \<le> b" and "b \<le> 0xBF"
  shows "cp * 64 + (b - 0x80) \<le> 0x43FF
    \<and> \<not> (0x360 \<le> cp * 64 + (b - 0x80) \<and> cp * 64 + (b - 0x80) \<le> 0x37F)"
proof -
  consider "cp \<le> 12" | "cp = 13" | "14 \<le> cp"
    by linarith
  then show ?thesis
    using assms by cases auto
qed

lemma cont_step1:
  fixes cp b :: nat
  assumes "cp \<le> 0x43FF" and "\<not> (0x360 \<le> cp \<and> cp \<le> 0x37F)"
    and "0x80 \<le> b" and "b \<le> 0xBF"
  shows "scalar_value (cp * 64 + (b - 0x80))"
proof -
  consider "cp \<le> 0x35F" | "0x380 \<le> cp"
    using assms(2) by linarith
  then show ?thesis
    using assms unfolding scalar_value_def by cases auto
qed

lemma utf8_handler_ok:
  assumes ok: "decoder_ok d" and h: "utf8_handler d b = (d', r)"
  shows "decoder_ok d' \<and> (\<forall>cp. r = Code_point cp \<longrightarrow> scalar_value cp)"
proof (cases "bytes_needed d = 0")
  case True
  with ok have st: "bytes_seen d = 0" "lower_boundary d = 0x80" "upper_boundary d = 0xBF"
    by (simp_all add: decoder_ok_def)
  consider (ascii) "b \<le> 0x7F" | (two) "0xC2 \<le> b" "b \<le> 0xDF"
    | (three) "0xE0 \<le> b" "b \<le> 0xEF" | (four) "0xF0 \<le> b" "b \<le> 0xF4"
    | (bad) "0x7F < b" "\<not> (0xC2 \<le> b \<and> b \<le> 0xDF)" "\<not> (0xE0 \<le> b \<and> b \<le> 0xEF)"
        "\<not> (0xF0 \<le> b \<and> b \<le> 0xF4)"
    by linarith
  then show ?thesis
  proof cases
    case ascii
    with True h have "d' = d" "r = Code_point b"
      by (simp_all add: utf8_handler_def)
    with ok ascii show ?thesis
      by (simp add: scalar_value_def)
  next
    case two
    with True h have "d' = d\<lparr>bytes_needed := 1, code_point := b mod 32\<rparr>" "r = Continue"
      by (simp_all add: utf8_handler_def)
    with st two show ?thesis
      by (auto simp: decoder_ok_def mod32_lead)
  next
    case three
    with True h have "d' = d\<lparr>lower_boundary := (if b = 0xE0 then 0xA0 else lower_boundary d),
             upper_boundary := (if b = 0xED then 0x9F else upper_boundary d),
             bytes_needed := 2, code_point := b mod 16\<rparr>" "r = Continue"
      by (simp_all add: utf8_handler_def)
    with st three show ?thesis
      by (auto simp: decoder_ok_def mod16_lead)
  next
    case four
    with True h have "d' = d\<lparr>lower_boundary := (if b = 0xF0 then 0x90 else lower_boundary d),
             upper_boundary := (if b = 0xF4 then 0x8F else upper_boundary d),
             bytes_needed := 3, code_point := b mod 8\<rparr>" "r = Continue"
      by (simp_all add: utf8_handler_def)
    with st four show ?thesis
      by (auto simp: decoder_ok_def mod8_lead)
  next
    case bad
    with True h have "d' = d" "r = Error"
      by (simp_all add: utf8_handler_def)
    with ok show ?thesis
      by simp
  qed
next
  case False
  show ?thesis
  proof (cases "b < lower_boundary d \<or> upper_boundary d < b")
    case True
    with False h have "d' = d\<lparr>code_point := 0, bytes_needed := 0, bytes_seen := 0,
          lower_boundary := 0x80, upper_boundary := 0xBF\<rparr>" "r = Error_restore"
      by (simp_all add: utf8_handler_def)
    then show ?thesis
      by (simp add: decoder_ok_def)
  next
    case inside: False
    with ok have b: "0x80 \<le> b" "b \<le> 0xBF"
      by (simp_all add: decoder_ok_def)
    note m = mod64_cont [OF b]
    show ?thesis
    proof (cases "bytes_seen d + 1 \<noteq> bytes_needed d")
      case True
      with False inside h have d': "d' = d\<lparr>lower_boundary := 0x80, upper_boundary := 0xBF,
                     code_point := code_point d * 64 + b mod 64,
                     bytes_seen := bytes_seen d + 1\<rparr>" and "r = Continue"
        by (simp_all add: utf8_handler_def Let_def)
      moreover have "decoder_ok d'"
      proof -
        from ok False have seen: "bytes_seen d < bytes_needed d" "bytes_needed d \<le> 3"
          by (simp_all add: decoder_ok_def)
        with True consider (r2) "bytes_needed d - bytes_seen d = 2"
          | (r3) "bytes_needed d - bytes_seen d = 3"
          by linarith
        then show ?thesis
        proof cases
          case r2
          with ok False have "code_point d \<le> 0x10F"
            "code_point d = 13 \<longrightarrow> upper_boundary d \<le> 0x9F"
            by (simp_all add: decoder_ok_def)
          from cont_step2 [OF this _ b] inside r2 seen
          show ?thesis
            unfolding d' m by (auto simp: decoder_ok_def)
        next
          case r3
          with ok False have "code_point d \<le> 4"
            "code_point d = 4 \<longrightarrow> upper_boundary d \<le> 0x8F"
            "code_point d = 0 \<longrightarrow> 0x90 \<le> lower_boundary d"
            by (simp_all add: decoder_ok_def)
          from cont_step3 [OF this _ _ b] inside r3 seen
          show ?thesis
            unfolding d' m by (auto simp: decoder_ok_def)
        qed
      qed
      ultimately show ?thesis by simp
    next
      case last: False
      with False inside h have "d' = d\<lparr>lower_boundary := 0x80, upper_boundary := 0xBF,
                     code_point := 0, bytes_seen := 0, bytes_needed := 0\<rparr>"
        and r: "r = Code_point (code_point d * 64 + b mod 64)"
        by (auto simp: utf8_handler_def Let_def)
      moreover have "scalar_value (code_point d * 64 + b mod 64)"
      proof -
        from ok False last have "code_point d \<le> 0x43FF"
          "\<not> (0x360 \<le> code_point d \<and> code_point d \<le> 0x37F)"
          by (simp_all add: decoder_ok_def)
        from cont_step1 [OF this b] show ?thesis
          unfolding m .
      qed
      ultimately show ?thesis
        by (simp add: decoder_ok_def)
    qed
  qed
qed


lemma scalar_value_replacement: "scalar_value 0xFFFD"
  by (simp add: scalar_value_def)

lemma utf8_decoder_scalar:
  "decoder_ok d \<Longrightarrow> cp \<in> set (utf8_decoder d bs) \<Longrightarrow> scalar_value cp"
proof (induction d bs rule: utf8_decoder.induct)
  case (1 d)
  then show ?case
    by (simp add: utf8_decoder.simps scalar_value_replacement split: if_splits)
next
  case (2 d c cs)
  obtain d' r where h: "utf8_handler d (of_char c) = (d', r)"
    by (cases "utf8_handler d (of_char c)")
  note ok' = utf8_handler_ok [OF "2.prems"(1) h]
  show ?case
  proof (cases r)
    case Continue
    with "2.prems"(2) h have "cp \<in> set (utf8_decoder d' cs)"
      by (simp add: utf8_decoder.simps(2) [of d c cs])
    with "2.IH"(1) [OF h [symmetric] Continue] ok' show ?thesis
      by simp
  next
    case (Code_point x)
    with "2.prems"(2) h have "cp = x \<or> cp \<in> set (utf8_decoder d' cs)"
      by (simp add: utf8_decoder.simps(2) [of d c cs])
    with "2.IH"(2) [OF h [symmetric] Code_point] ok' Code_point show ?thesis
      by auto
  next
    case Error
    with "2.prems"(2) h have "cp = 0xFFFD \<or> cp \<in> set (utf8_decoder d' cs)"
      by (simp add: utf8_decoder.simps(2) [of d c cs])
    with "2.IH"(3) [OF h [symmetric] Error] ok' show ?thesis
      by (auto simp: scalar_value_replacement)
  next
    case Error_restore
    with "2.prems"(2) h have "cp = 0xFFFD \<or> cp \<in> set (utf8_decoder d' (c # cs))"
      by (simp add: utf8_decoder.simps(2) [of d c cs])
    with "2.IH"(4) [OF h [symmetric] Error_restore] ok' show ?thesis
      by (auto simp: scalar_value_replacement)
  qed
qed


lemma utf8_decoder_Continue:
  "utf8_handler d (of_char c) = (d', Continue) \<Longrightarrow> utf8_decoder d (c # cs) = utf8_decoder d' cs"
  by (simp add: utf8_decoder.simps(2) [of d c cs])

lemma utf8_decoder_Code_point:
  "utf8_handler d (of_char c) = (d', Code_point cp) \<Longrightarrow>
    utf8_decoder d (c # cs) = cp # utf8_decoder d' cs"
  by (simp add: utf8_decoder.simps(2) [of d c cs])

lemma of_char_of_byte: "b < 256 \<Longrightarrow> of_char (char_of (b::nat)) = b"
  by simp

lemma utf8_decoder_two:
  fixes a x :: nat
  assumes "2 \<le> a" and "a \<le> 31" and "x < 64"
  shows "utf8_decoder decoder_init (char_of (a + 0xC0) # char_of (0x80 + x) # rest)
    = (a * 64 + x) # utf8_decoder decoder_init rest"
proof -
  let ?d1 = "decoder_init\<lparr>bytes_needed := 1, code_point := a\<rparr>"
  have b1: "of_char (char_of (a + 0xC0)) = a + 0xC0" and b2: "of_char (char_of (0x80 + x)) = 0x80 + x"
    using assms by (simp_all add: of_char_of_byte)
  have "(a + 0xC0) mod 32 = a"
    using mod32_lead [of "a + 0xC0"] assms by simp
  then have "utf8_handler decoder_init (a + 0xC0) = (?d1, Continue)"
    using assms by (simp add: utf8_handler_def decoder_init_def)
  then have s1: "utf8_decoder decoder_init (char_of (a + 0xC0) # cs) = utf8_decoder ?d1 cs" for cs
    using utf8_decoder_Continue [of decoder_init "char_of (a + 0xC0)"] b1 by simp
  have "(0x80 + x) mod 64 = x"
    using mod64_cont [of "0x80 + x"] assms by simp
  then have "utf8_handler ?d1 (0x80 + x) = (decoder_init, Code_point (a * 64 + x))"
    using assms by (simp add: utf8_handler_def decoder_init_def Let_def)
  then have s2: "utf8_decoder ?d1 (char_of (0x80 + x) # cs) = (a * 64 + x) # utf8_decoder decoder_init cs" for cs
    using utf8_decoder_Code_point [of ?d1 "char_of (0x80 + x)"] b2 by simp
  show ?thesis
    by (simp only: s1 s2)
qed


lemma utf8_decoder_continuation:
  fixes x :: nat
  assumes "bytes_needed d \<noteq> 0" and "lower_boundary d \<le> 0x80 + x"
    and "0x80 + x \<le> upper_boundary d" and "x < 64"
    and "bytes_seen d + 1 \<noteq> bytes_needed d"
  shows "utf8_decoder d (char_of (0x80 + x) # cs)
    = utf8_decoder (d\<lparr>lower_boundary := 0x80, upper_boundary := 0xBF,
         code_point := code_point d * 64 + x, bytes_seen := bytes_seen d + 1\<rparr>) cs"
proof -
  have b: "of_char (char_of (0x80 + x)) = 0x80 + x"
    using assms(4) by (simp add: of_char_of_byte)
  have "(0x80 + x) mod 64 = x"
    using mod64_cont [of "0x80 + x"] assms(4) by simp
  then have "utf8_handler d (0x80 + x)
    = (d\<lparr>lower_boundary := 0x80, upper_boundary := 0xBF,
         code_point := code_point d * 64 + x, bytes_seen := bytes_seen d + 1\<rparr>, Continue)"
    using assms by (simp add: utf8_handler_def Let_def)
  then show ?thesis
    using utf8_decoder_Continue [of d "char_of (0x80 + x)"] b by simp
qed

lemma utf8_decoder_last:
  fixes x :: nat
  assumes "bytes_needed d \<noteq> 0" and "lower_boundary d \<le> 0x80 + x"
    and "0x80 + x \<le> upper_boundary d" and "x < 64"
    and "bytes_seen d + 1 = bytes_needed d"
  shows "utf8_decoder d (char_of (0x80 + x) # cs)
    = (code_point d * 64 + x) # utf8_decoder (d\<lparr>lower_boundary := 0x80, upper_boundary := 0xBF,
         code_point := 0, bytes_seen := 0, bytes_needed := 0\<rparr>) cs"
proof -
  have b: "of_char (char_of (0x80 + x)) = 0x80 + x"
    using assms(4) by (simp add: of_char_of_byte)
  have "(0x80 + x) mod 64 = x"
    using mod64_cont [of "0x80 + x"] assms(4) by simp
  then have "utf8_handler d (0x80 + x)
    = (d\<lparr>lower_boundary := 0x80, upper_boundary := 0xBF,
         code_point := 0, bytes_seen := 0, bytes_needed := 0\<rparr>, Code_point (code_point d * 64 + x))"
    using assms by (auto simp: utf8_handler_def Let_def)
  then show ?thesis
    using utf8_decoder_Code_point [of d "char_of (0x80 + x)"] b by simp
qed

lemma utf8_decoder_three:
  fixes a x y :: nat
  assumes "a \<le> 15" and "x < 64" and "y < 64"
    and "a = 0 \<longrightarrow> 32 \<le> x" and "a = 13 \<longrightarrow> x < 32"
  shows "utf8_decoder decoder_init
      (char_of (a + 0xE0) # char_of (0x80 + x) # char_of (0x80 + y) # rest)
    = ((a * 64 + x) * 64 + y) # utf8_decoder decoder_init rest"
proof -
  let ?d1 = "decoder_init\<lparr>lower_boundary := (if a = 0 then 0xA0 else 0x80),
      upper_boundary := (if a = 13 then 0x9F else 0xBF), bytes_needed := 2, code_point := a\<rparr>"
  have b1: "of_char (char_of (a + 0xE0)) = a + 0xE0"
    using assms(1) by (simp add: of_char_of_byte)
  have "(a + 0xE0) mod 16 = a"
    using mod16_lead [of "a + 0xE0"] assms(1) by simp
  then have "utf8_handler decoder_init (a + 0xE0) = (?d1, Continue)"
    using assms(1) by (simp add: utf8_handler_def decoder_init_def)
  then have s1: "utf8_decoder decoder_init (char_of (a + 0xE0) # cs) = utf8_decoder ?d1 cs" for cs
    using utf8_decoder_Continue [of decoder_init "char_of (a + 0xE0)"] b1 by simp
  let ?d2 = "\<lparr>code_point = a * 64 + x, bytes_seen = 1, bytes_needed = 2,
      lower_boundary = 0x80, upper_boundary = 0xBF\<rparr>"
  have s2: "utf8_decoder ?d1 (char_of (0x80 + x) # cs) = utf8_decoder ?d2 cs" for cs
    using utf8_decoder_continuation [of ?d1 x cs] assms
    by (auto simp: decoder_init_def)
  have s3: "utf8_decoder ?d2 (char_of (0x80 + y) # cs)
    = ((a * 64 + x) * 64 + y) # utf8_decoder decoder_init cs" for cs
    using utf8_decoder_last [of ?d2 y cs] assms
    by (auto simp: decoder_init_def)
  show ?thesis
    by (simp only: s1 s2 s3)
qed

lemma utf8_decoder_four:
  fixes a x y z :: nat
  assumes "a \<le> 4" and "x < 64" and "y < 64" and "z < 64"
    and "a = 0 \<longrightarrow> 16 \<le> x" and "a = 4 \<longrightarrow> x < 16"
  shows "utf8_decoder decoder_init
      (char_of (a + 0xF0) # char_of (0x80 + x) # char_of (0x80 + y) # char_of (0x80 + z) # rest)
    = (((a * 64 + x) * 64 + y) * 64 + z) # utf8_decoder decoder_init rest"
proof -
  let ?d1 = "decoder_init\<lparr>lower_boundary := (if a = 0 then 0x90 else 0x80),
      upper_boundary := (if a = 4 then 0x8F else 0xBF), bytes_needed := 3, code_point := a\<rparr>"
  have b1: "of_char (char_of (a + 0xF0)) = a + 0xF0"
    using assms(1) by (simp add: of_char_of_byte)
  have "(a + 0xF0) mod 8 = a"
    using mod8_lead [of "a + 0xF0"] assms(1) by simp
  then have "utf8_handler decoder_init (a + 0xF0) = (?d1, Continue)"
    using assms(1) by (simp add: utf8_handler_def decoder_init_def)
  then have s1: "utf8_decoder decoder_init (char_of (a + 0xF0) # cs) = utf8_decoder ?d1 cs" for cs
    using utf8_decoder_Continue [of decoder_init "char_of (a + 0xF0)"] b1 by simp
  let ?d2 = "\<lparr>code_point = a * 64 + x, bytes_seen = 1, bytes_needed = 3,
      lower_boundary = 0x80, upper_boundary = 0xBF\<rparr>"
  let ?d3 = "\<lparr>code_point = (a * 64 + x) * 64 + y, bytes_seen = 2, bytes_needed = 3,
      lower_boundary = 0x80, upper_boundary = 0xBF\<rparr>"
  have s2: "utf8_decoder ?d1 (char_of (0x80 + x) # cs) = utf8_decoder ?d2 cs" for cs
    using utf8_decoder_continuation [of ?d1 x cs] assms
    by (auto simp: decoder_init_def)
  have s3: "utf8_decoder ?d2 (char_of (0x80 + y) # cs) = utf8_decoder ?d3 cs" for cs
    using utf8_decoder_continuation [of ?d2 y cs] assms
    by (auto simp: decoder_init_def numeral_2_eq_2)
  have s4: "utf8_decoder ?d3 (char_of (0x80 + z) # cs)
    = (((a * 64 + x) * 64 + y) * 64 + z) # utf8_decoder decoder_init cs" for cs
    using utf8_decoder_last [of ?d3 z cs] assms
    by (auto simp: decoder_init_def)
  show ?thesis
    by (simp only: s1 s2 s3 s4)
qed


lemma utf8_handler_ascii:
  "b \<le> 0x7F \<Longrightarrow> utf8_handler decoder_init b = (decoder_init, Code_point b)"
  by (simp add: utf8_handler_def decoder_init_def)

lemma utf8_decoder_ascii:
  "of_char c \<le> (0x7F::nat) \<Longrightarrow>
    utf8_decoder decoder_init (c # cs) = of_char c # utf8_decoder decoder_init cs"
  by (subst utf8_decoder.simps) (simp add: utf8_handler_ascii)

lemma split_three:
  fixes cp :: nat
  shows "cp = (cp div 4096 * 64 + cp div 64 mod 64) * 64 + cp mod 64"
proof -
  have "cp div 4096 = cp div 64 div 64"
    by (simp add: div_mult2_eq [symmetric])
  then have "cp div 4096 * 64 + cp div 64 mod 64 = cp div 64"
    by simp
  then show ?thesis
    by simp
qed

lemma split_four:
  fixes cp :: nat
  shows "cp = ((cp div 262144 * 64 + cp div 4096 mod 64) * 64 + cp div 64 mod 64) * 64 + cp mod 64"
proof -
  have "cp div 262144 = cp div 4096 div 64"
    by (simp add: div_mult2_eq [symmetric])
  then have "cp div 262144 * 64 + cp div 4096 mod 64 = cp div 4096"
    by simp
  then show ?thesis
    using split_three [of cp] by simp
qed

lemma utf8_decoder_encode:
  assumes "scalar_value cp"
  shows "utf8_decoder decoder_init (utf8_encode_code_point cp @ rest)
    = cp # utf8_decoder decoder_init rest"
proof -
  consider (one) "cp \<le> 0x7F" | (two) "0x7F < cp" "cp \<le> 0x7FF"
    | (three) "0x7FF < cp" "cp \<le> 0xFFFF" | (four) "0xFFFF < cp"
    by linarith
  then show ?thesis
  proof cases
    case one
    then show ?thesis
      by (simp add: utf8_encode_code_point_def utf8_decoder_ascii)
  next
    case two
    define a x where "a = cp div 64" and "x = cp mod 64"
    have cp: "cp = a * 64 + x" and x: "x < 64"
      by (simp_all add: a_def x_def)
    have a: "2 \<le> a" "a \<le> 31"
      using two cp x by linarith+
    have "utf8_encode_code_point cp = [char_of (a + 0xC0), char_of (0x80 + x)]"
      using two by (simp add: utf8_encode_code_point_def a_def x_def)
    then show ?thesis
      using utf8_decoder_two [OF a x, of rest] cp by simp
  next
    case three
    define a x y where "a = cp div 4096" and "x = cp div 64 mod 64" and "y = cp mod 64"
    have cp: "cp = (a * 64 + x) * 64 + y" and x: "x < 64" and y: "y < 64"
      using split_three [of cp] by (simp_all add: a_def x_def y_def)
    have cpl: "cp = a * 4096 + x * 64 + y"
      using cp by simp
    have sur: "cp < 0xD800 \<or> 0xDFFF < cp"
      using assms by (simp add: scalar_value_def not_le)
    have a: "a \<le> 15"
      using three cpl x y by linarith
    have lo: "a = 0 \<longrightarrow> 32 \<le> x"
      using three cpl x y by linarith
    have hi: "a = 13 \<longrightarrow> x < 32"
      using sur cpl x y by linarith
    have "utf8_encode_code_point cp
      = [char_of (a + 0xE0), char_of (0x80 + x), char_of (0x80 + y)]"
      using three by (simp add: utf8_encode_code_point_def a_def x_def y_def)
    then show ?thesis
      using utf8_decoder_three [OF a x y lo hi, of rest] cp by simp
  next
    case four
    define a x y z where "a = cp div 262144" and "x = cp div 4096 mod 64"
      and "y = cp div 64 mod 64" and "z = cp mod 64"
    have cp: "cp = ((a * 64 + x) * 64 + y) * 64 + z" and x: "x < 64" and y: "y < 64" and z: "z < 64"
      using split_four [of cp] by (simp_all add: a_def x_def y_def z_def)
    have cpl: "cp = a * 262144 + x * 4096 + y * 64 + z"
      using cp by simp
    have top: "cp \<le> 0x10FFFF"
      using assms by (simp add: scalar_value_def)
    have a: "a \<le> 4"
      using top cpl x y z by linarith
    have lo: "a = 0 \<longrightarrow> 16 \<le> x"
      using four cpl x y z by linarith
    have hi: "a = 4 \<longrightarrow> x < 16"
      using top cpl x y z by linarith
    have "utf8_encode_code_point cp
      = [char_of (a + 0xF0), char_of (0x80 + x), char_of (0x80 + y), char_of (0x80 + z)]"
      using four by (simp add: utf8_encode_code_point_def a_def x_def y_def z_def)
    then show ?thesis
      using utf8_decoder_four [OF a x y z lo hi, of rest] cp by simp
  qed
qed

section \<open>Properties of the conversion of numbers to strings\<close>

lemma shortest_safe:
  assumes "0 \<le> x" and "x \<le> MAX_SAFE_INTEGER"
  shows "shortest x d k = x"
  using assms
proof (induction x d k rule: shortest.induct)
  case (1 x d k)
  show ?case
  proof (cases "d \<le> k")
    case True
    then show ?thesis by (subst shortest.simps) simp
  next
    case False
    define p :: int where "p = 10 ^ (d - k)"
    define lo where "lo = x div p * p"
    have ppos: "0 < p" by (simp add: p_def)
    have "x div p * p + x mod p = x"
      by (rule div_mult_mod_eq)
    moreover have "0 \<le> x mod p" "x mod p < p"
      using ppos by simp_all
    ultimately have lo_le: "lo \<le> x" and hi: "x < lo + p"
      unfolding lo_def by linarith+
    have "0 \<le> x div p"
      using ppos "1.prems"(1) by (simp add: pos_imp_zdiv_nonneg_iff)
    then have "0 \<le> lo"
      using ppos by (simp add: lo_def)
    note lo = this lo_le
    have "\<bar>lo\<bar> \<le> 9007199254740992"
      using lo "1.prems"(2) by (simp add: MAX_SAFE_INTEGER_def)
    then have rlo: "js_round lo = lo"
      by (rule js_round_exact)
    have rhi: "js_round (lo + p) \<noteq> x"
    proof (cases "lo + p \<le> 9007199254740992")
      case True
      with lo ppos have "\<bar>lo + p\<bar> \<le> 9007199254740992" by simp
      then have "js_round (lo + p) = lo + p" by (rule js_round_exact)
      with hi show ?thesis by simp
    next
      case False
      then have "9007199254740992 \<le> js_round (lo + p)"
        by (intro js_round_large) simp
      with "1.prems"(2) show ?thesis by (simp add: MAX_SAFE_INTEGER_def)
    qed
    show ?thesis
    proof (cases "lo = x")
      case True
      with False rlo rhi show ?thesis
        by (subst shortest.simps) (simp add: Let_def p_def [symmetric] lo_def [symmetric])
    next
      case ne: False
      have "shortest x d (Suc k) = x"
        using "1.IH" [OF False refl refl refl refl refl] ne rlo rhi "1.prems"
        by (simp add: p_def lo_def)
      with False ne rlo rhi show ?thesis
        by (subst shortest.simps) (simp add: Let_def p_def [symmetric] lo_def [symmetric])
    qed
  qed
qed

lemma length_digits: "n < 10 ^ m \<Longrightarrow> 0 < m \<Longrightarrow> length (digits n) \<le> m"
proof (induction n arbitrary: m rule: digits.induct)
  case (1 n)
  show ?case
  proof (cases "n < 10")
    case True
    with "1.prems" show ?thesis by (subst digits.simps) simp
  next
    case False
    from "1.prems" obtain m' where m: "m = Suc m'" by (cases m) simp_all
    with "1.prems" False have "0 < m'" by (cases m') simp_all
    moreover from "1.prems" m have "n div 10 < 10 ^ m'"
      by (simp add: less_mult_imp_div_less mult.commute)
    ultimately have "length (digits (n div 10)) \<le> m'"
      using "1.IH" False by simp
    with False m show ?thesis by (subst digits.simps) simp
  qed
qed

lemma positive_to_string_safe:
  assumes "0 \<le> x" and "x \<le> MAX_SAFE_INTEGER"
  shows "positive_to_string x = digits (nat x)"
proof -
  have "nat x < 10 ^ 21"
    using assms by (simp add: MAX_SAFE_INTEGER_def)
  then have "length (digits (nat x)) \<le> 21"
    by (rule length_digits) simp
  then show ?thesis
    by (simp add: positive_to_string_def shortest_safe [OF assms])
qed

lemma number_to_string_safe:
  "0 \<le> x \<Longrightarrow> x \<le> MAX_SAFE_INTEGER \<Longrightarrow> number_to_string x = digits (nat x)"
  by (simp add: number_to_string_def positive_to_string_safe)

section \<open>Properties of the query string\<close>

lemma utf8_decoder_Nil: "utf8_decoder decoder_init [] = []"
  by (subst utf8_decoder.simps) (simp add: decoder_init_def)

lemma utf8_decoder_encode_all:
  "\<forall>cp \<in> set cps. scalar_value cp \<Longrightarrow>
    utf8_decoder decoder_init (concat (map utf8_encode_code_point cps)) = cps"
  by (induction cps) (simp_all add: utf8_decoder_Nil utf8_decoder_encode)

lemma utf8_decode_idem:
  "utf8_decode_without_BOM (utf8_decode_without_BOM bs) = utf8_decode_without_BOM bs"
proof -
  have "\<forall>cp \<in> set (utf8_decoder decoder_init bs). scalar_value cp"
    using utf8_decoder_scalar [OF decoder_ok_init] by blast
  then show ?thesis
    by (simp add: utf8_decode_without_BOM_def utf8_decoder_encode_all)
qed

lemma percent_decode_Cons:
  "c \<noteq> CHR ''%'' \<Longrightarrow> percent_decode (c # cs) = c # percent_decode cs"
  by (cases "c # cs" rule: percent_decode.cases) auto

lemma of_char_hex_upper:
  "n < 16 \<Longrightarrow> of_char (hex_upper n) = (if n < 10 then 48 + n else 55 + n)"
  by (simp add: hex_upper_def)

lemma hex_value_hex_upper: "n < 16 \<Longrightarrow> hex_value (hex_upper n) = Some n"
  by (simp add: hex_value_def of_char_hex_upper Let_def)

lemma hex_upper_not_special:
  assumes "n < 16"
  shows "hex_upper n \<noteq> CHR ''+''" and "hex_upper n \<noteq> CHR ''&''"
    and "hex_upper n \<noteq> CHR ''=''" and "hex_upper n \<noteq> CHR ''?''"
proof -
  have c: "of_char (hex_upper n) \<noteq> (k::nat)" if "k < 48 \<or> (57 < k \<and> k < 65)" for k
    using that assms by (auto simp: of_char_hex_upper)
  show "hex_upper n \<noteq> CHR ''+''"
    using c [of 43] by auto
  show "hex_upper n \<noteq> CHR ''&''"
    using c [of 38] by auto
  show "hex_upper n \<noteq> CHR ''=''"
    using c [of 61] by auto
  show "hex_upper n \<noteq> CHR ''?''"
    using c [of 63] by auto
qed

lemma urlencoded_plain_not_special:
  assumes "urlencoded_plain c"
  shows "c \<noteq> CHR ''+''" and "c \<noteq> CHR ''%''" and "c \<noteq> CHR ''&''"
    and "c \<noteq> CHR ''=''" and "c \<noteq> CHR ''?''"
  using assms by (auto simp: urlencoded_plain_def Let_def)

lemma byte_nibbles: "of_char c div 16 < (16::nat)" "of_char c mod 16 < (16::nat)"
proof -
  have "(of_char c :: nat) < 16 * 16"
    using nat_of_char_less_256 [of c] by simp
  then show "of_char c div 16 < (16::nat)"
    by (rule less_mult_imp_div_less)
  show "of_char c mod 16 < (16::nat)"
    by simp
qed

lemma percent_decode_percent_encode_byte:
  "percent_decode (percent_encode_byte c @ cs) = c # percent_decode cs"
proof -
  note hi = byte_nibbles(1) [of c] and lo = byte_nibbles(2) [of c]
  have "char_of ((of_char c :: nat) div 16 * 16 + of_char c mod 16) = c"
    by simp
  then show ?thesis
    by (simp add: percent_encode_byte_def hex_value_hex_upper [OF hi] hex_value_hex_upper [OF lo])
qed

lemma plus_to_space_percent_encode_byte:
  "plus_to_space (percent_encode_byte c) = percent_encode_byte c"
proof -
  note hi = byte_nibbles(1) [of c] and lo = byte_nibbles(2) [of c]
  show ?thesis
    by (simp add: plus_to_space_def percent_encode_byte_def
        hex_upper_not_special(1) [OF hi] hex_upper_not_special(1) [OF lo])
qed

lemma plus_to_space_append: "plus_to_space (xs @ ys) = plus_to_space xs @ plus_to_space ys"
  by (simp add: plus_to_space_def)

lemma plus_to_space_Cons:
  "plus_to_space (c # cs) = (if c = CHR ''+'' then CHR '' '' else c) # plus_to_space cs"
  by (simp add: plus_to_space_def)

lemma urlencoded_roundtrip_bytes:
  "percent_decode (plus_to_space (urlencoded_encode bs)) = bs"
proof (induction bs)
  case Nil
  show ?case by (simp add: plus_to_space_def)
next
  case (Cons c bs)
  consider (space) "c = CHR '' ''" | (plain) "c \<noteq> CHR '' ''" "urlencoded_plain c"
    | (other) "c \<noteq> CHR '' ''" "\<not> urlencoded_plain c"
    by blast
  then show ?case
  proof cases
    case space
    with Cons show ?thesis
      by (simp add: plus_to_space_Cons percent_decode_Cons)
  next
    case plain
    with Cons urlencoded_plain_not_special(1,2) [OF plain(2)] show ?thesis
      by (simp add: plus_to_space_Cons percent_decode_Cons)
  next
    case other
    with Cons show ?thesis
      by (simp add: plus_to_space_append plus_to_space_percent_encode_byte
          percent_decode_percent_encode_byte)
  qed
qed

lemma urlencoded_decode_encode:
  "urlencoded_decode (urlencoded_encode bs) = utf8_decode_without_BOM bs"
  by (simp add: urlencoded_decode_def urlencoded_roundtrip_bytes)

lemma urlencoded_encode_chars:
  assumes "c \<in> set (urlencoded_encode bs)"
  shows "c \<noteq> CHR ''&'' \<and> c \<noteq> CHR ''='' \<and> c \<noteq> CHR ''?''"
  using assms
proof (induction bs)
  case Nil
  then show ?case by simp
next
  case (Cons b bs)
  note hi = byte_nibbles(1) [of b] and lo = byte_nibbles(2) [of b]
  from Cons.prems consider (here) "b = CHR '' ''" "c = CHR ''+''"
    | (plain) "urlencoded_plain b" "c = b"
    | (enc) "c \<in> set (percent_encode_byte b)"
    | (rest) "c \<in> set (urlencoded_encode bs)"
    by (auto split: if_splits)
  then show ?case
  proof cases
    case here
    then show ?thesis by simp
  next
    case plain
    then show ?thesis
      using urlencoded_plain_not_special(3,4,5) [of b] by simp
  next
    case enc
    then show ?thesis
      using hex_upper_not_special(2,3,4) [OF hi] hex_upper_not_special(2,3,4) [OF lo]
      by (auto simp: percent_encode_byte_def)
  next
    case rest
    then show ?thesis by (rule Cons.IH)
  qed
qed

lemma split_on_no_delimiter: "d \<notin> set xs \<Longrightarrow> split_on d xs = [xs]"
  by (induction xs) auto

lemma split_on_append:
  "d \<notin> set xs \<Longrightarrow> split_on d (xs @ d # ys) = xs # split_on d ys"
  by (induction xs) auto

lemma piece_no_ampersand: "CHR ''&'' \<notin> set (piece p)"
  using urlencoded_encode_chars by (auto simp: piece_def)

lemma piece_not_empty: "piece p \<noteq> []"
  by (simp add: piece_def)

lemma toString_Cons:
  "toString (p # ps) = (if ps = [] then piece p else piece p @ CHR ''&'' # toString ps)"
  by (cases ps; cases p) (auto simp: piece_def)

lemma split_toString:
  "ps \<noteq> [] \<Longrightarrow> split_on CHR ''&'' (toString ps) = map piece ps"
proof (induction ps)
  case Nil
  then show ?case by simp
next
  case (Cons p ps)
  show ?case
  proof (cases "ps = []")
    case True
    then show ?thesis
      by (simp add: toString_Cons split_on_no_delimiter piece_no_ampersand)
  next
    case False
    with Cons show ?thesis
      by (simp add: toString_Cons split_on_append piece_no_ampersand)
  qed
qed

lemma parse_pair_piece:
  "parse_pair (piece (n, v)) = (utf8_decode_without_BOM n, utf8_decode_without_BOM v)"
proof -
  have no_eq: "\<forall>c \<in> set (urlencoded_encode n). c \<noteq> CHR ''=''"
    using urlencoded_encode_chars by blast
  have "takeWhile (\<lambda>c. c \<noteq> CHR ''='') (urlencoded_encode n @ CHR ''='' # urlencoded_encode v)
      = urlencoded_encode n"
    using no_eq by (simp add: takeWhile_tail)
  moreover have "dropWhile (\<lambda>c. c \<noteq> CHR ''='') (urlencoded_encode n @ CHR ''='' # urlencoded_encode v)
      = CHR ''='' # urlencoded_encode v"
    using no_eq by (simp add: dropWhile_append3)
  ultimately show ?thesis
    by (simp add: parse_pair_def piece_def urlencoded_decode_encode)
qed

lemma urlencoded_parse_toString:
  "urlencoded_parse (toString ps)
    = map (\<lambda>p. (utf8_decode_without_BOM (fst p), utf8_decode_without_BOM (snd p))) ps"
proof (cases "ps = []")
  case True
  then show ?thesis
    by (simp add: urlencoded_parse_def)
next
  case False
  have "filter (\<lambda>bs. bs \<noteq> []) (map piece ps) = map piece ps"
    by (simp add: piece_not_empty)
  moreover have "map parse_pair (map piece ps)
      = map (\<lambda>p. (utf8_decode_without_BOM (fst p), utf8_decode_without_BOM (snd p))) ps"
    by (induction ps) (auto simp: parse_pair_piece)
  ultimately show ?thesis
    using False by (simp add: urlencoded_parse_def split_toString)
qed

lemma toString_no_question_mark: "CHR ''?'' \<notin> set (toString ps)"
proof (induction ps)
  case Nil
  show ?case by simp
next
  case (Cons p ps)
  have "CHR ''?'' \<notin> set (piece p)"
    using urlencoded_encode_chars by (auto simp: piece_def)
  with Cons show ?case
    by (simp add: toString_Cons)
qed

lemma URLSearchParams_toString:
  "URLSearchParams (toString ps)
    = map (\<lambda>p. (utf8_decode_without_BOM (fst p), utf8_decode_without_BOM (snd p))) ps"
proof -
  have "URLSearchParams (toString ps) = urlencoded_parse (toString ps)"
    using toString_no_question_mark [of ps]
    by (cases "toString ps") (auto simp: URLSearchParams_def)
  then show ?thesis
    by (simp add: urlencoded_parse_toString)
qed

lemma utf8_decode_ascii:
  "\<forall>c \<in> set bs. of_char c \<le> (0x7F::nat) \<Longrightarrow> utf8_decode_without_BOM bs = bs"
  unfolding utf8_decode_without_BOM_def
  by (induction bs) (simp_all add: utf8_decoder_Nil utf8_decoder_ascii utf8_encode_code_point_def)

lemma URLSearchParams_toString_decoded:
  "decoded_params ps \<Longrightarrow> URLSearchParams (toString ps) = ps"
  by (simp add: URLSearchParams_toString decoded_params_def map_idI)

lemma decoded_urlencoded_parse: "decoded_params (urlencoded_parse input)"
  by (auto simp: decoded_params_def urlencoded_parse_def parse_pair_def urlencoded_decode_def
      utf8_decode_idem)

lemma decoded_URLSearchParams: "decoded_params (URLSearchParams init)"
  by (simp add: URLSearchParams_def decoded_urlencoded_parse)

lemma decoded_delete: "decoded_params ps \<Longrightarrow> decoded_params (delete k ps)"
  by (auto simp: decoded_params_def delete_def)

lemma set_set_first: "set (set_first k v ps) \<subseteq> insert (k, v) (set ps)"
  by (induction ps) (auto simp: delete_def split: if_splits)

lemma decoded_set_param:
  assumes "decoded_params ps" and "utf8_decode_without_BOM k = k" and "utf8_decode_without_BOM v = v"
  shows "decoded_params (set_param k v ps)"
  using assms set_set_first [of k v ps]
  by (auto simp: decoded_params_def set_param_def)

lemma digits_ascii: "c \<in> set (digits n) \<Longrightarrow> of_char c \<le> (0x7F::nat)"
proof (induction n rule: digits.induct)
  case (1 n)
  show ?case
  proof (cases "n < 10")
    case True
    with "1.prems" show ?thesis
      by (subst (asm) digits.simps) simp
  next
    case False
    with "1.prems" have "c \<in> set (digits (n div 10)) \<or> c = char_of (48 + n mod 10)"
      by (subst (asm) digits.simps) auto
    then show ?thesis
    proof
      assume "c \<in> set (digits (n div 10))"
      with False "1.IH" show ?thesis by simp
    next
      have "n mod 10 < 10" by simp
      moreover assume "c = char_of (48 + n mod 10)"
      ultimately show ?thesis by simp
    qed
  qed
qed

lemma positive_to_string_ascii:
  assumes "c \<in> set (positive_to_string x)"
  shows "of_char c \<le> (0x7F::nat)"
proof -
  define v where "v = nat (shortest x (length (digits (nat x))) 1)"
  have unfolded: "positive_to_string x =
    (if length (digits v) \<le> 21 then digits v
     else (case digits (strip_zeros v) of
             [] \<Rightarrow> []
           | a # as \<Rightarrow>
               a # (if as = [] then [] else CHR ''.'' # as) @ ''e+''
                 @ digits (length (digits v) - 1)))"
    unfolding positive_to_string_def Let_def v_def by (rule refl)
  show ?thesis
  proof (cases "length (digits v) \<le> 21")
    case True
    with assms have "c \<in> set (digits v)"
      by (simp add: unfolded)
    then show ?thesis by (rule digits_ascii)
  next
    case False
    show ?thesis
    proof (cases "digits (strip_zeros v)")
      case Nil
      with False assms show ?thesis
        by (simp add: unfolded)
    next
      case (Cons a as)
      then have sub: "a \<in> set (digits (strip_zeros v))" "set as \<subseteq> set (digits (strip_zeros v))"
        by auto
      from False assms Cons
      have "c = a \<or> c \<in> set as \<or> c \<in> set ''.e+'' \<or> c \<in> set (digits (length (digits v) - 1))"
        by (auto simp: unfolded split: if_splits)
      with sub show ?thesis
        by (auto dest: digits_ascii)
    qed
  qed
qed

lemma number_to_string_decoded:
  "utf8_decode_without_BOM (number_to_string page) = number_to_string page"
  by (rule utf8_decode_ascii)
     (auto simp: number_to_string_def dest: positive_to_string_ascii split: if_splits)

lemma page_decoded: "utf8_decode_without_BOM ''page'' = ''page''"
  by (rule utf8_decode_ascii) simp

lemma delete_filter: "delete k ps = filter (\<lambda>p. fst p \<noteq> k) ps"
  by (induction ps) (auto simp: delete_def)

lemma filter_delete:
  "filter (\<lambda>p. fst p \<noteq> k) (delete k ps) = filter (\<lambda>p. fst p \<noteq> k) ps"
  by (simp add: delete_filter)

lemma filter_set_first:
  "filter (\<lambda>p. fst p \<noteq> k) (set_first k v ps) = filter (\<lambda>p. fst p \<noteq> k) ps"
  by (induction ps) (auto simp: filter_delete)

lemma filter_set_param:
  "filter (\<lambda>p. fst p \<noteq> k) (set_param k v ps) = filter (\<lambda>p. fst p \<noteq> k) ps"
  by (simp add: set_param_def filter_set_first)

text \<open>
  C7: \<open>getUpdatedSearchParams\<close> changes only the parameter \<open>page\<close>. For every search
  string and every page number, the parameters of the result that are not named \<open>page\<close>
  are those of the search string that are not named \<open>page\<close>: the same names with the
  same values, in the same order, none added and none removed.
\<close>

theorem getUpdatedSearchParams_frame:
  "filter (\<lambda>p. fst p \<noteq> ''page'') (URLSearchParams (getUpdatedSearchParams searchString page))
    = filter (\<lambda>p. fst p \<noteq> ''page'') (URLSearchParams searchString)"
proof (cases "page = 1")
  case True
  have "decoded_params (delete ''page'' (URLSearchParams searchString))"
    by (rule decoded_delete) (rule decoded_URLSearchParams)
  then have "URLSearchParams (toString (delete ''page'' (URLSearchParams searchString)))
      = delete ''page'' (URLSearchParams searchString)"
    by (rule URLSearchParams_toString_decoded)
  with True show ?thesis
    by (simp add: getUpdatedSearchParams_def filter_delete)
next
  case False
  let ?ps = "set_param ''page'' (number_to_string page) (URLSearchParams searchString)"
  have "decoded_params ?ps"
    by (rule decoded_set_param) (rule decoded_URLSearchParams page_decoded number_to_string_decoded)+
  then have "URLSearchParams (toString ?ps) = ?ps"
    by (rule URLSearchParams_toString_decoded)
  with False show ?thesis
    by (simp add: getUpdatedSearchParams_def filter_set_param)
qed

lemma urlencoded_decode_example: "urlencoded_decode ''%41'' = ''A''"
  by (simp add: urlencoded_decode_def plus_to_space_def hex_value_def utf8_decode_ascii
      char_of_eq_iff take_bit_eq_mod)

lemma URLSearchParams_example:
  "URLSearchParams ''?q=a+b&page=3&x=%41'' = [(''q'', ''a b''), (''page'', ''3''), (''x'', ''A'')]"
  by (simp add: URLSearchParams_def urlencoded_parse_def parse_pair_def urlencoded_decode_example)
     (simp add: urlencoded_decode_def plus_to_space_def utf8_decode_ascii)

lemma getUpdatedSearchParams_example:
  "getUpdatedSearchParams ''?q=a+b&page=3&x=%41'' 5 = ''q=a+b&page=5&x=A''"
proof -
  have "number_to_string 5 = ''5''"
    by (simp add: number_to_string_safe MAX_SAFE_INTEGER_def digits.simps
        char_of_eq_iff take_bit_eq_mod)
  then show ?thesis
    by (simp add: getUpdatedSearchParams_def URLSearchParams_example set_param_def delete_def
        urlencoded_plain_def)
qed

theorem getUpdatedSearchParams_frame_witness:
  "getUpdatedSearchParams ''?q=a+b&page=3&x=%41'' 5 = ''q=a+b&page=5&x=A''
   \<and> filter (\<lambda>p. fst p \<noteq> ''page'') (URLSearchParams ''q=a+b&page=5&x=A'')
     = [(''q'', ''a b''), (''x'', ''A'')]"
  using getUpdatedSearchParams_frame [of "''?q=a+b&page=3&x=%41''" 5]
  by (simp add: getUpdatedSearchParams_example URLSearchParams_example)

section \<open>Properties of the page links\<close>

lemma urlencoded_plain_digit: "(n::nat) < 10 \<Longrightarrow> urlencoded_plain (char_of (48 + n))"
  by (simp add: urlencoded_plain_def Let_def)

lemma digit_not_space: "(n::nat) < 10 \<Longrightarrow> char_of (48 + n) \<noteq> CHR '' ''"
  by (simp add: char_of_eq_iff take_bit_eq_mod)

lemma urlencoded_encode_append:
  "urlencoded_encode (xs @ ys) = urlencoded_encode xs @ urlencoded_encode ys"
  by (induction xs) simp_all

lemma urlencoded_encode_digits: "urlencoded_encode (digits n) = digits n"
proof (induction n rule: digits.induct)
  case (1 n)
  show ?case
  proof (cases "n < 10")
    case True
    then show ?thesis
      by (subst (1 2) digits.simps) (simp add: urlencoded_plain_digit digit_not_space)
  next
    case False
    then have "urlencoded_encode (digits (n div 10)) = digits (n div 10)"
      using 1 by simp
    with False show ?thesis
      by (subst (1 2) digits.simps)
         (simp add: urlencoded_encode_append urlencoded_plain_digit digit_not_space)
  qed
qed

lemma urlencoded_encode_page: "urlencoded_encode ''page'' = ''page''"
  by (simp add: urlencoded_plain_def)

lemma delete_only: "\<forall>p \<in> set ps. fst p = k \<Longrightarrow> delete k ps = []"
  by (induction ps) (auto simp: delete_def)

lemma set_param_only:
  assumes "\<forall>p \<in> set ps. fst p = k"
  shows "set_param k v ps = [(k, v)]"
proof (cases ps)
  case Nil
  then show ?thesis by (simp add: set_param_def)
next
  case (Cons p rest)
  obtain n x where p: "p = (n, x)" by (cases p)
  from assms Cons p have n: "n = k" and rest: "\<forall>q \<in> set rest. fst q = k"
    by simp_all
  have "set_first k v ps = [(k, v)]"
    using Cons p n delete_only [OF rest] by simp
  moreover have "k \<in> fst ` set ps"
    using Cons p n by simp
  ultimately show ?thesis
    by (simp add: set_param_def)
qed

lemma toString_single: "toString [(k, v)] = urlencoded_encode k @ ''='' @ urlencoded_encode v"
  by simp

text \<open>
  C8, for safe integers: for a location whose search string has no parameter other than
  \<open>page\<close>, the link to page 1 is the bare pathname, and the link to a page \<open>n\<close> with
  \<open>2 \<le> n \<le> 2\<^sup>5\<^sup>3 - 1\<close> is the pathname followed by \<open>?page=\<close>, the decimal notation of
  \<open>n\<close>, and the fragment \<open>#results\<close>.
\<close>

theorem getPageLink_only_page:
  assumes "\<forall>p \<in> set (URLSearchParams (search loc)). fst p = ''page''"
  shows "getPageLink loc 1 = pathname loc
    \<and> (\<forall>page. 2 \<le> page \<and> page \<le> MAX_SAFE_INTEGER \<longrightarrow>
          getPageLink loc page = pathname loc @ ''?page='' @ digits (nat page) @ ''#results'')"
proof (intro conjI allI impI)
  show "getPageLink loc 1 = pathname loc"
    by (simp add: getPageLink_def getUpdatedSearchParams_def delete_only [OF assms])
next
  fix page :: int
  assume "2 \<le> page \<and> page \<le> MAX_SAFE_INTEGER"
  then have str: "number_to_string page = digits (nat page)" and ne: "page \<noteq> 1"
    by (simp_all add: number_to_string_safe)
  have "getUpdatedSearchParams (search loc) page = ''page='' @ digits (nat page)"
    using ne
    by (simp add: getUpdatedSearchParams_def set_param_only [OF assms] str
        urlencoded_encode_digits urlencoded_encode_page del: urlencoded_encode.simps)
  then show "getPageLink loc page = pathname loc @ ''?page='' @ digits (nat page) @ ''#results''"
    by (simp add: getPageLink_def)
qed

lemma URLSearchParams_page_3: "URLSearchParams ''?page=3'' = [(''page'', ''3'')]"
  by (simp add: URLSearchParams_def urlencoded_parse_def parse_pair_def urlencoded_decode_def
      plus_to_space_def utf8_decode_ascii)

lemma digits_12: "digits 12 = ''12''"
  by (simp add: digits.simps char_of_eq_iff take_bit_eq_mod)

theorem getPageLink_only_page_witness:
  "getPageLink \<lparr>pathname = ''/blog'', search = ''?page=3''\<rparr> 1 = ''/blog''
   \<and> (2::int) \<le> 12 \<and> 12 \<le> MAX_SAFE_INTEGER
   \<and> getPageLink \<lparr>pathname = ''/blog'', search = ''?page=3''\<rparr> 12 = ''/blog?page=12#results''"
proof -
  let ?loc = "\<lparr>pathname = ''/blog'', search = ''?page=3''\<rparr>"
  have h: "\<forall>p \<in> set (URLSearchParams (search ?loc)). fst p = ''page''"
    by (simp add: URLSearchParams_page_3)
  have safe: "(2::int) \<le> 12 \<and> 12 \<le> MAX_SAFE_INTEGER"
    by (simp add: MAX_SAFE_INTEGER_def)
  note t = getPageLink_only_page [OF h]
  have a: "getPageLink ?loc 1 = ''/blog''"
    using t [THEN conjunct1] by simp
  have "getPageLink ?loc 12 = pathname ?loc @ ''?page='' @ digits (nat 12) @ ''#results''"
    using t [THEN conjunct2, rule_format, of 12] safe by simp
  then have b: "getPageLink ?loc 12 = ''/blog?page=12#results''"
    by (simp add: digits_12)
  from a b safe show ?thesis by simp
qed

text \<open>
  Beyond the safe integers the page number is not written out digit by digit. The
  Number \<open>2\<^sup>6\<^sup>0 = 1152921504606846976\<close> is written with the sixteen digits that
  tell it from its neighbours, followed by zeros, and \<open>10\<^sup>2\<^sup>1\<close> is written in the
  exponent form, whose \<open>+\<close> is percent-encoded in the query string.
\<close>

lemma bit_length_numeral_even: "bit_length (numeral (Num.Bit0 n)) = Suc (bit_length (numeral n))"
  by (subst bit_length.simps) simp

lemma bit_length_numeral_odd: "bit_length (numeral (Num.Bit1 n)) = Suc (bit_length (numeral n))"
  by (subst bit_length.simps) simp

lemma bit_length_1: "bit_length 1 = 1"
  by (simp add: bit_length.simps [of 1] bit_length.simps [of 0])

lemma number_to_string_1e21: "number_to_string 1000000000000000000000 = ''1e+21''"
proof -
  have d: "length (digits 1000000000000000000000) = 22"
    by (simp add: digits.simps)
  have s: "shortest 1000000000000000000000 22 1 = 1000000000000000000000"
    by (subst shortest.simps)
       (simp add: Let_def js_round_def bit_length_numeral_even bit_length_numeral_odd bit_length_1)
  have z: "strip_zeros 1000000000000000000000 = 1"
    by (simp add: strip_zeros.simps)
  have "digits 1 = ''1''" "digits 21 = ''21''"
    by (simp_all add: digits.simps char_of_eq_iff take_bit_eq_mod)
  with d s z show ?thesis
    by (simp add: number_to_string_def positive_to_string_def)
qed

lemma number_to_string_2p60: "number_to_string 1152921504606846976 = ''1152921504606847000''"
proof -
  have d: "length (digits 1152921504606846976) = 19"
    by (simp add: digits.simps)
  have s: "shortest 1152921504606846976 19 1 = 1152921504606847000"
    by (simp add: shortest.simps Let_def js_round_def bit_length_numeral_even
        bit_length_numeral_odd bit_length_1)
  have "digits 1152921504606847000 = ''1152921504606847000''"
    by (simp add: digits.simps char_of_eq_iff take_bit_eq_mod)
  with d s show ?thesis
    by (simp add: number_to_string_def positive_to_string_def)
qed

theorem getPageLink_large_page_counterexample:
  "URLSearchParams (search \<lparr>pathname = ''/b'', search = []\<rparr>) = []
   \<and> (2::int) \<le> 1152921504606846976
   \<and> getPageLink \<lparr>pathname = ''/b'', search = []\<rparr> 1152921504606846976
       = ''/b?page=1152921504606847000#results''
   \<and> getPageLink \<lparr>pathname = ''/b'', search = []\<rparr> 1152921504606846976
       \<noteq> ''/b?page=1152921504606846976#results''
   \<and> (2::int) \<le> 1000000000000000000000
   \<and> getPageLink \<lparr>pathname = ''/b'', search = []\<rparr> 1000000000000000000000
       = ''/b?page=1e%2B21#results''
   \<and> getPageLink \<lparr>pathname = ''/b'', search = []\<rparr> 1000000000000000000000
       \<noteq> ''/b?page=1000000000000000000000#results''"
proof -
  have p: "URLSearchParams [] = []"
    by (simp add: URLSearchParams_def urlencoded_parse_def)
  have "urlencoded_encode ''1e+21'' = ''1e%2B21''"
    by (simp add: urlencoded_plain_def percent_encode_byte_def hex_upper_def
        char_of_eq_iff take_bit_eq_mod)
  then have a: "getPageLink \<lparr>pathname = ''/b'', search = []\<rparr> 1000000000000000000000
       = ''/b?page=1e%2B21#results''"
    by (simp add: getPageLink_def getUpdatedSearchParams_def p set_param_def
        number_to_string_1e21 urlencoded_encode_page del: urlencoded_encode.simps)
  have "urlencoded_encode ''1152921504606847000'' = ''1152921504606847000''"
    by (simp add: urlencoded_plain_def)
  then have b: "getPageLink \<lparr>pathname = ''/b'', search = []\<rparr> 1152921504606846976
       = ''/b?page=1152921504606847000#results''"
    by (simp add: getPageLink_def getUpdatedSearchParams_def p set_param_def
        number_to_string_2p60 urlencoded_encode_page del: urlencoded_encode.simps)
  from p a b show ?thesis
    by simp
qed

section \<open>Properties of the footer\<close>

text \<open>
  C9: the footer renders the queried links in their order, followed by one \<open>Legal\<close> link
  to \<open>/legal\<close>. A link goes to its own slug and is not external, except a link with the
  slug \<open>/watch\<close>, which goes to \<open>http://bit.ly/3csKkSE\<close> and is external.
\<close>

theorem FooterLinks_items:
  "length (FooterLinks menuLinks) = length menuLinks + 1
   \<and> map label (FooterLinks menuLinks) = map name menuLinks @ [''Legal'']
   \<and> last (FooterLinks menuLinks) = \<lparr>label = ''Legal'', to = ''/legal'', isExternal = False\<rparr>
   \<and> (\<forall>i < length menuLinks.
         label (FooterLinks menuLinks ! i) = name (menuLinks ! i)
         \<and> isExternal (FooterLinks menuLinks ! i) = (slug (menuLinks ! i) = ''/watch'')
         \<and> to (FooterLinks menuLinks ! i) =
             (if slug (menuLinks ! i) = ''/watch'' then ''http://bit.ly/3csKkSE''
              else slug (menuLinks ! i)))"
  by (simp add: FooterLinks_def nth_append)

theorem FooterLinks_items_witness:
  "FooterLinks [\<lparr>name = ''Watch'', slug = ''/watch''\<rparr>, \<lparr>name = ''About'', slug = ''/about''\<rparr>]
     = [\<lparr>label = ''Watch'', to = ''http://bit.ly/3csKkSE'', isExternal = True\<rparr>,
        \<lparr>label = ''About'', to = ''/about'', isExternal = False\<rparr>,
        \<lparr>label = ''Legal'', to = ''/legal'', isExternal = False\<rparr>]"
proof -
  let ?ls = "[\<lparr>name = ''Watch'', slug = ''/watch''\<rparr>, \<lparr>name = ''About'', slug = ''/about''\<rparr>]"
  have "length (FooterLinks ?ls) = 3"
    using FooterLinks_items [of ?ls] by simp
  then show ?thesis
    by (simp add: FooterLinks_def)
qed

end
